theory Spec2Isabelle
  imports Main "HOL-Library.Word"
begin

section \<open>Data model of the simulated Notifier HAL\<close>

text \<open>
  The source is the simulation implementation of the Notifier alarm primitive
  (\<^verbatim>\<open>HAL_InitializeNotifier\<close> ... \<^verbatim>\<open>HALSIM_GetNotifierInfo\<close>).  Every
  \<^verbatim>\<open>Notifier\<close> lives behind a \<^verbatim>\<open>std::shared_ptr\<close>: the registry holds one
  reference and a thread inside \<^verbatim>\<open>HAL_WaitForNotifierAlarm\<close> holds another, so an
  object may be mutated after its handle has been freed.  The embedding therefore keeps an
  explicit store of objects indexed by reference, and the registry maps slots to references.
\<close>

type_synonym uint64_t = "64 word"
type_synonym int32_t = "32 word"
type_synonym ref = nat

definition UINT64_MAX :: uint64_t where
  "UINT64_MAX = - 1"

text \<open>\<^verbatim>\<open>struct Notifier\<close>; the mutex and the condition variable of the struct appear as
  the events \<open>notifier_mutex r\<close> and \<open>notifier_cond r\<close> of the object's reference.\<close>

record Notifier =
  name :: string
  waitTime :: uint64_t
  active :: bool
  running :: bool
  count :: uint64_t

text \<open>\<^verbatim>\<open>std::make_shared<Notifier>()\<close>: value initialisation followed by the default
  member initialisers \<^verbatim>\<open>active = true\<close>, \<^verbatim>\<open>running = false\<close>, \<^verbatim>\<open>count = 0\<close>.\<close>

definition make_Notifier :: Notifier where
  "make_Notifier = \<lparr>name = [], waitTime = 0, active = True, running = False, count = 0\<rparr>"

text \<open>A handle is opaque to this file: it is either \<^verbatim>\<open>HAL_kInvalidHandle\<close> or the handle
  that \<^verbatim>\<open>createHandle\<close> built for a slot index, from which \<^verbatim>\<open>getHandleIndex\<close> reads
  the index back.\<close>

datatype HAL_NotifierHandle = HAL_kInvalidHandle | Handle nat

fun getHandleIndex :: "HAL_NotifierHandle \<Rightarrow> nat" where
  "getHandleIndex (Handle i) = i"
| "getHandleIndex HAL_kInvalidHandle = 0"

text \<open>Synchronisation actions, recorded in program order.  \<open>WaitFor c m d\<close> is
  \<^verbatim>\<open>c.wait_for(lock_on_m, d)\<close>: it releases \<open>m\<close>, blocks for at most \<open>d\<close> and
  re-acquires \<open>m\<close>.\<close>

datatype mutex = notifiersWaiterMutex | notifier_mutex ref
datatype condvar = notifiersWaiterCond | notifier_cond ref
datatype duration = Seconds1000 | Seconds1 | Microseconds uint64_t
datatype event = Lock mutex | Unlock mutex | NotifyAll condvar | WaitFor condvar mutex duration

record hal_state =
  heap :: "ref \<Rightarrow> Notifier"
  next_ref :: ref
  m_structures :: "ref option list"
  m_limit :: nat
  notifiersPaused :: bool
  trace :: "event list"

definition emit :: "event list \<Rightarrow> hal_state \<Rightarrow> hal_state" where
  "emit es s = s\<lparr>trace := trace s @ es\<rparr>"

definition modify :: "ref \<Rightarrow> (Notifier \<Rightarrow> Notifier) \<Rightarrow> hal_state \<Rightarrow> hal_state" where
  "modify r f s = s\<lparr>heap := (heap s)(r := f (heap s r))\<rparr>"

section \<open>The handle registry\<close>

text \<open>Modelled from the spec: the class template \<^verbatim>\<open>UnlimitedHandleResource\<close>
  (allocate, get, free and for-each over reference-counted objects keyed by handles) is not
  part of the sources at hand.  The registry is a vector of slots, each empty or holding a
  reference; a handle names a slot, so that it is unique among the registered objects;
  allocation takes a free slot and fails when there is no free slot: every slot holds a
  reference and the vector has reached its capacity \<open>m_limit\<close>.\<close>

definition Get :: "hal_state \<Rightarrow> HAL_NotifierHandle \<Rightarrow> ref option" where
  "Get s h = (case h of
      HAL_kInvalidHandle \<Rightarrow> None
    | Handle i \<Rightarrow> if i < length (m_structures s) then m_structures s ! i else None)"

text \<open>Modelled from the spec: \<open>Free\<close> removes the mapping and returns the reference.\<close>

definition Free :: "HAL_NotifierHandle \<Rightarrow> hal_state \<Rightarrow> ref option \<times> hal_state" where
  "Free h s = (case Get s h of
      None \<Rightarrow> (None, s)
    | Some r \<Rightarrow> (Some r, s\<lparr>m_structures := (m_structures s)[getHandleIndex h := None]\<rparr>))"

text \<open>Modelled from the spec: the index of the first free slot, if there is one.\<close>

fun first_free :: "ref option list \<Rightarrow> nat option" where
  "first_free [] = None"
| "first_free (None # xs) = Some 0"
| "first_free (Some r # xs) = map_option Suc (first_free xs)"

text \<open>Modelled from the spec: \<open>Allocate\<close> registers a reference in a free slot and returns
  the handle of that slot: a slot that was freed, or else a new slot while the capacity
  allows one.  With no free handle slot it returns the invalid handle.\<close>

definition Allocate :: "ref \<Rightarrow> hal_state \<Rightarrow> HAL_NotifierHandle \<times> hal_state" where
  "Allocate r s =
     (case first_free (m_structures s) of
        Some i \<Rightarrow> (Handle i, s\<lparr>m_structures := (m_structures s)[i := Some r]\<rparr>)
      | None \<Rightarrow>
          if length (m_structures s) < m_limit s
          then (Handle (length (m_structures s)), s\<lparr>m_structures := m_structures s @ [Some r]\<rparr>)
          else (HAL_kInvalidHandle, s))"

text \<open>Modelled from the spec: \<open>ForEach\<close> visits every registered object with its handle,
  in slot order.  A whole enumeration is taken as one step.\<close>

fun entries_from :: "nat \<Rightarrow> ref option list \<Rightarrow> (HAL_NotifierHandle \<times> ref) list" where
  "entries_from i [] = []"
| "entries_from i (None # xs) = entries_from (Suc i) xs"
| "entries_from i (Some r # xs) = (Handle i, r) # entries_from (Suc i) xs"

definition entries :: "hal_state \<Rightarrow> (HAL_NotifierHandle \<times> ref) list" where
  "entries s = entries_from 0 (m_structures s)"

definition ForEach :: "(HAL_NotifierHandle \<Rightarrow> ref \<Rightarrow> 'a \<Rightarrow> 'a) \<Rightarrow> hal_state \<Rightarrow> 'a \<Rightarrow> 'a" where
  "ForEach func s acc = fold (\<lambda>(h, r). func h r) (entries s) acc"

section \<open>Creating, naming, stopping and freeing\<close>

text \<open>\<^verbatim>\<open>HAL_InitializeNotifier\<close>.  The error code \<^verbatim>\<open>HAL_HANDLE_ERROR\<close> comes from a
  header outside the sources at hand and is a parameter.  When allocation fails the fresh
  object dies with its only \<^verbatim>\<open>shared_ptr\<close>, so the state is as before.\<close>

definition HAL_InitializeNotifier ::
  "int32_t \<Rightarrow> int32_t \<Rightarrow> hal_state \<Rightarrow> HAL_NotifierHandle \<times> int32_t \<times> hal_state" where
  "HAL_InitializeNotifier HAL_HANDLE_ERROR status s =
     (let notifier = next_ref s;
          s1 = s\<lparr>heap := (heap s)(notifier := make_Notifier), next_ref := Suc (next_ref s)\<rparr>;
          (handle, s2) = Allocate notifier s1
      in if handle = HAL_kInvalidHandle
         then (HAL_kInvalidHandle, HAL_HANDLE_ERROR, s)
         else (handle, status, s2))"

definition HAL_SetNotifierName ::
  "HAL_NotifierHandle \<Rightarrow> string \<Rightarrow> int32_t \<Rightarrow> hal_state \<Rightarrow> int32_t \<times> hal_state" where
  "HAL_SetNotifierName notifierHandle nm status s =
     (case Get s notifierHandle of
        None \<Rightarrow> (status, s)
      | Some r \<Rightarrow>
          (let s = emit [Lock (notifier_mutex r)] s;
               s = modify r (\<lambda>n. n\<lparr>name := nm\<rparr>) s;
               s = emit [Unlock (notifier_mutex r)] s
           in (status, s)))"

text \<open>The block shared by \<^verbatim>\<open>HAL_StopNotifier\<close>, \<^verbatim>\<open>HAL_CleanNotifier\<close> and the
  destructor of the container: deactivate under the lock, then wake the waiters.\<close>

definition deactivate :: "ref \<Rightarrow> hal_state \<Rightarrow> hal_state" where
  "deactivate r s =
     (let s = emit [Lock (notifier_mutex r)] s;
          s = modify r (\<lambda>n. n\<lparr>active := False, running := False\<rparr>) s;
          s = emit [Unlock (notifier_mutex r)] s
      in emit [NotifyAll (notifier_cond r)] s)"

definition HAL_StopNotifier ::
  "HAL_NotifierHandle \<Rightarrow> int32_t \<Rightarrow> hal_state \<Rightarrow> int32_t \<times> hal_state" where
  "HAL_StopNotifier notifierHandle status s =
     (case Get s notifierHandle of
        None \<Rightarrow> (status, s)
      | Some r \<Rightarrow> (status, deactivate r s))"

definition HAL_CleanNotifier ::
  "HAL_NotifierHandle \<Rightarrow> int32_t \<Rightarrow> hal_state \<Rightarrow> int32_t \<times> hal_state" where
  "HAL_CleanNotifier notifierHandle status s =
     (case Free notifierHandle s of
        (None, s) \<Rightarrow> (status, s)
      | (Some r, s) \<Rightarrow> (status, deactivate r s))"

text \<open>\<^verbatim>\<open>~NotifierHandleContainer\<close>.\<close>

definition NotifierHandleContainer_dtor :: "hal_state \<Rightarrow> hal_state" where
  "NotifierHandleContainer_dtor s =
     emit [NotifyAll notifiersWaiterCond] (ForEach (\<lambda>handle r. deactivate r) s s)"

section \<open>Arming and cancelling\<close>

definition HAL_UpdateNotifierAlarm ::
  "HAL_NotifierHandle \<Rightarrow> uint64_t \<Rightarrow> int32_t \<Rightarrow> hal_state \<Rightarrow> int32_t \<times> hal_state" where
  "HAL_UpdateNotifierAlarm notifierHandle triggerTime status s =
     (case Get s notifierHandle of
        None \<Rightarrow> (status, s)
      | Some r \<Rightarrow>
          (let s = emit [Lock (notifier_mutex r)] s;
               s = modify r (\<lambda>n. n\<lparr>waitTime := triggerTime,
                                     running := (triggerTime \<noteq> UINT64_MAX)\<rparr>) s;
               s = emit [Unlock (notifier_mutex r)] s;
               s = emit [NotifyAll (notifier_cond r)] s
           in (status, s)))"

definition HAL_CancelNotifierAlarm ::
  "HAL_NotifierHandle \<Rightarrow> int32_t \<Rightarrow> hal_state \<Rightarrow> int32_t \<times> hal_state" where
  "HAL_CancelNotifierAlarm notifierHandle status s =
     (case Get s notifierHandle of
        None \<Rightarrow> (status, s)
      | Some r \<Rightarrow>
          (let s = emit [Lock (notifier_mutex r)] s;
               s = modify r (\<lambda>n. n\<lparr>running := False\<rparr>) s;
               s = emit [Unlock (notifier_mutex r)] s
           in (status, s)))"

section \<open>Pause, resume and wake-up\<close>

definition PauseNotifiers :: "hal_state \<Rightarrow> hal_state" where
  "PauseNotifiers s = s\<lparr>notifiersPaused := True\<rparr>"

definition WakeupNotifiers :: "hal_state \<Rightarrow> hal_state" where
  "WakeupNotifiers s = ForEach (\<lambda>handle r. emit [NotifyAll (notifier_cond r)]) s s"

definition ResumeNotifiers :: "hal_state \<Rightarrow> hal_state" where
  "ResumeNotifiers s = WakeupNotifiers (s\<lparr>notifiersPaused := False\<rparr>)"

section \<open>Waiting for the alarm\<close>

text \<open>The prologue of \<^verbatim>\<open>HAL_WaitForNotifierAlarm\<close> for a handle that \<open>Get\<close> found:
  both locks are taken, the wake count is incremented (unsigned 64-bit, so \<open>+\<close> wraps), the
  coordinator's lock is released and its condition variable signalled.  The object's lock stays
  held.\<close>

definition wait_begin :: "ref \<Rightarrow> hal_state \<Rightarrow> hal_state" where
  "wait_begin r s =
     (let s = emit [Lock notifiersWaiterMutex, Lock (notifier_mutex r)] s;
          s = modify r (\<lambda>n. n\<lparr>count := count n + 1\<rparr>) s
      in emit [Unlock notifiersWaiterMutex, NotifyAll notifiersWaiterCond] s)"

text \<open>One evaluation of the loop condition and, if it holds, of the loop body, with the
  value \<open>curTime\<close> that \<^verbatim>\<open>HAL_GetFPGATime\<close> returned.  The time source is outside the
  sources at hand; it is taken not to write the status.  The \<^verbatim>\<open>double waitTime\<close> of the
  source is \<open>1000.0\<close> or the unsigned difference \<open>waitTime - curTime\<close> scaled from
  microseconds; the model keeps the microseconds.\<close>

datatype wait_step = LoopExit | Fire uint64_t | Sleep duration

definition wait_iteration :: "ref \<Rightarrow> uint64_t \<Rightarrow> hal_state \<Rightarrow> wait_step \<times> hal_state" where
  "wait_iteration r curTime s =
     (if active (heap s r) then
        (if running (heap s r) \<and> waitTime (heap s r) \<le> curTime
         then (Fire curTime,
               emit [Unlock (notifier_mutex r)] (modify r (\<lambda>n. n\<lparr>running := False\<rparr>) s))
         else
           (let d = (if \<not> running (heap s r) \<or> notifiersPaused s then Seconds1000
                     else Microseconds (waitTime (heap s r) - curTime))
            in (Sleep d, emit [WaitFor (notifier_cond r) (notifier_mutex r) d] s)))
      else (LoopExit, emit [Unlock (notifier_mutex r)] s))"

section \<open>Operations of other threads\<close>

text \<open>What the other threads do while one thread is blocked in a \<^verbatim>\<open>wait_for\<close>: calls
  of the exposed operations, each taken as one step (it works on one object, under that
  object's lock), and the two atomic steps of another waiter (its prologue, and one loop
  iteration with the time it sampled).\<close>

datatype op =
    InitializeNotifier int32_t
  | SetNotifierName HAL_NotifierHandle string
  | StopNotifier HAL_NotifierHandle
  | CleanNotifier HAL_NotifierHandle
  | UpdateNotifierAlarm HAL_NotifierHandle uint64_t
  | CancelNotifierAlarm HAL_NotifierHandle
  | Pause
  | Resume
  | Wakeup
  | Teardown
  | WaitBegin HAL_NotifierHandle
  | WaitIteration ref uint64_t

fun run_op :: "op \<Rightarrow> hal_state \<Rightarrow> hal_state" where
  "run_op (InitializeNotifier e) s = snd (snd (HAL_InitializeNotifier e 0 s))"
| "run_op (SetNotifierName h nm) s = snd (HAL_SetNotifierName h nm 0 s)"
| "run_op (StopNotifier h) s = snd (HAL_StopNotifier h 0 s)"
| "run_op (CleanNotifier h) s = snd (HAL_CleanNotifier h 0 s)"
| "run_op (UpdateNotifierAlarm h t) s = snd (HAL_UpdateNotifierAlarm h t 0 s)"
| "run_op (CancelNotifierAlarm h) s = snd (HAL_CancelNotifierAlarm h 0 s)"
| "run_op Pause s = PauseNotifiers s"
| "run_op Resume s = ResumeNotifiers s"
| "run_op Wakeup s = WakeupNotifiers s"
| "run_op Teardown s = NotifierHandleContainer_dtor s"
| "run_op (WaitBegin h) s = (case Get s h of None \<Rightarrow> s | Some r \<Rightarrow> wait_begin r s)"
| "run_op (WaitIteration r t) s = snd (wait_iteration r t s)"

definition run_ops :: "op list \<Rightarrow> hal_state \<Rightarrow> hal_state" where
  "run_ops ops s = fold run_op ops s"

text \<open>The loop of \<^verbatim>\<open>HAL_WaitForNotifierAlarm\<close>.  A schedule gives, for every evaluation
  of the loop condition, the time the clock returns and what the other threads do while the
  waiter is blocked in \<^verbatim>\<open>cond.wait_for\<close> afterwards (the wait may end by a notification,
  by its timeout or spuriously: the model allows all three).  \<open>Blocked\<close> says that the call
  has not returned when the schedule ends; the other results name the \<^verbatim>\<open>return\<close>
  statement taken.\<close>

datatype wait_result = Unknown | Blocked | Stopped | Fired uint64_t

fun return_value :: "wait_result \<Rightarrow> uint64_t option" where
  "return_value Unknown = Some 0"
| "return_value Blocked = None"
| "return_value Stopped = Some 0"
| "return_value (Fired curTime) = Some curTime"

fun wait_loop ::
  "ref \<Rightarrow> (uint64_t \<times> op list) list \<Rightarrow> hal_state \<Rightarrow> wait_result \<times> hal_state" where
  "wait_loop r [] s = (Blocked, s)"
| "wait_loop r ((curTime, others) # sched) s =
     (case wait_iteration r curTime s of
        (LoopExit, s') \<Rightarrow> (Stopped, s')
      | (Fire t, s') \<Rightarrow> (Fired t, s')
      | (Sleep d, s') \<Rightarrow> wait_loop r sched (run_ops others s'))"

definition HAL_WaitForNotifierAlarm ::
  "HAL_NotifierHandle \<Rightarrow> (uint64_t \<times> op list) list \<Rightarrow> int32_t \<Rightarrow> hal_state
     \<Rightarrow> wait_result \<times> int32_t \<times> hal_state" where
  "HAL_WaitForNotifierAlarm notifierHandle sched status s =
     (case Get s notifierHandle of
        None \<Rightarrow> (Unknown, status, s)
      | Some r \<Rightarrow>
          (let (res, s') = wait_loop r sched (wait_begin r s) in (res, status, s')))"

section \<open>The simulation barrier\<close>

type_synonym waiters = "(HAL_NotifierHandle \<times> uint64_t) list"

text \<open>The visitor of the first \<^verbatim>\<open>ForEach\<close> in \<^verbatim>\<open>WakeupWaitNotifiers\<close>.\<close>

definition snapshot_visit ::
  "uint64_t \<Rightarrow> HAL_NotifierHandle \<Rightarrow> ref \<Rightarrow> waiters \<times> hal_state \<Rightarrow> waiters \<times> hal_state" where
  "snapshot_visit curTime handle r acc =
     (let (waiters, s) = acc;
          s = emit [Lock (notifier_mutex r)] s;
          n = heap s r
      in if running n \<and> (count n = 0 \<or> waitTime n \<le> curTime)
         then (waiters @ [(handle, count n)],
               emit [NotifyAll (notifier_cond r), Unlock (notifier_mutex r)] s)
         else (waiters, emit [Unlock (notifier_mutex r)] s))"

definition snapshot :: "uint64_t \<Rightarrow> hal_state \<Rightarrow> waiters \<times> hal_state" where
  "snapshot curTime s = ForEach (snapshot_visit curTime) s ([], s)"

text \<open>The test on one entry of the pending vector: the object is still registered, still
  active and its wake count is the one of the snapshot.\<close>

definition recheck :: "HAL_NotifierHandle \<times> uint64_t \<Rightarrow> hal_state \<Rightarrow> bool \<times> hal_state" where
  "recheck it s =
     (case Get s (fst it) of
        None \<Rightarrow> (False, s)
      | Some r \<Rightarrow>
          (active (heap s r) \<and> count (heap s r) = snd it,
           emit [Lock (notifier_mutex r), Unlock (notifier_mutex r)] s))"

definition swap_at :: "nat \<Rightarrow> nat \<Rightarrow> 'a list \<Rightarrow> 'a list" where
  "swap_at i j xs = xs[i := xs ! j, j := xs ! i]"

text \<open>The inner \<^verbatim>\<open>while (count < end)\<close> loop: entries that are still waited for stay in
  front, the others are swapped behind \<open>end\<close>.  It is entered with \<^verbatim>\<open>end = waiters.size()\<close>,
  so every index read is in range.  The loop counter is called \<open>cnt\<close> here.\<close>

function prune :: "waiters \<Rightarrow> nat \<Rightarrow> nat \<Rightarrow> hal_state \<Rightarrow> waiters \<times> nat \<times> hal_state" where
  "prune waiters cnt end' s =
     (if cnt < end' then
        (let (keep, s') = recheck (waiters ! cnt) s
         in if keep then prune waiters (Suc cnt) end' s'
            else prune (swap_at cnt (end' - 1) waiters) cnt (end' - 1) s')
      else (waiters, cnt, s))"
  by pat_completeness auto
termination
  by (relation "measure (\<lambda>(waiters, cnt, end', s). end' - cnt)") auto

declare prune.simps [simp del]

text \<open>The outer \<^verbatim>\<open>for (;;)\<close> loop.  The schedule gives what the other threads do during
  each \<^verbatim>\<open>notifiersWaiterCond.wait_for\<close>; \<open>None\<close> says that the barrier has not returned
  when the schedule ends.  A pass is taken as atomic.\<close>

fun barrier_loop :: "op list list \<Rightarrow> waiters \<Rightarrow> hal_state \<Rightarrow> hal_state option" where
  "barrier_loop [] waiters s =
     (let (waiters, cnt, s) = prune waiters 0 (length waiters) s
      in if cnt = 0 then Some (emit [Unlock notifiersWaiterMutex] s) else None)"
| "barrier_loop (others # sched) waiters s =
     (let (waiters, cnt, s) = prune waiters 0 (length waiters) s
      in if cnt = 0 then Some (emit [Unlock notifiersWaiterMutex] s)
         else barrier_loop sched (take cnt waiters)
                (run_ops others
                   (emit [WaitFor notifiersWaiterCond notifiersWaiterMutex Seconds1] s)))"

definition WakeupWaitNotifiers :: "uint64_t \<Rightarrow> op list list \<Rightarrow> hal_state \<Rightarrow> hal_state option" where
  "WakeupWaitNotifiers curTime sched s =
     (let s = emit [Lock notifiersWaiterMutex] s;
          (waiters, s) = snapshot curTime s
      in barrier_loop sched waiters s)"

section \<open>Introspection\<close>

text \<open>The visitors of the \<^verbatim>\<open>ForEach\<close> calls of \<^verbatim>\<open>HALSIM_GetNextNotifierTimeout\<close>
  and \<^verbatim>\<open>HALSIM_GetNumNotifiers\<close>, with the captured variable as accumulator.\<close>

definition next_timeout_visit ::
  "HAL_NotifierHandle \<Rightarrow> ref \<Rightarrow> uint64_t \<times> hal_state \<Rightarrow> uint64_t \<times> hal_state" where
  "next_timeout_visit handle r acc =
     (let (timeout, s) = acc;
          s = emit [Lock (notifier_mutex r)] s;
          n = heap s r;
          timeout = (if active n \<and> running n \<and> waitTime n < timeout
                     then waitTime n else timeout)
      in (timeout, emit [Unlock (notifier_mutex r)] s))"

definition HALSIM_GetNextNotifierTimeout :: "hal_state \<Rightarrow> uint64_t \<times> hal_state" where
  "HALSIM_GetNextNotifierTimeout s = ForEach next_timeout_visit s (UINT64_MAX, s)"

definition num_visit ::
  "HAL_NotifierHandle \<Rightarrow> ref \<Rightarrow> int32_t \<times> hal_state \<Rightarrow> int32_t \<times> hal_state" where
  "num_visit handle r acc =
     (let (cnt, s) = acc;
          s = emit [Lock (notifier_mutex r)] s;
          cnt = (if active (heap s r) then cnt + 1 else cnt)
      in (cnt, emit [Unlock (notifier_mutex r)] s))"

definition HALSIM_GetNumNotifiers :: "hal_state \<Rightarrow> int32_t \<times> hal_state" where
  "HALSIM_GetNumNotifiers s = ForEach num_visit s (0, s)"

text \<open>\<^verbatim>\<open>struct HALSIM_NotifierInfo\<close>, as far as this file writes it.  Its fields are called
  \<^verbatim>\<open>handle\<close>, \<^verbatim>\<open>name\<close>, \<^verbatim>\<open>timeout\<close> and \<^verbatim>\<open>running\<close> in the source.\<close>

record HALSIM_NotifierInfo =
  handle_info :: HAL_NotifierHandle
  name_info :: string
  timeout_info :: uint64_t
  running_info :: bool

text \<open>\<^verbatim>\<open>%d\<close> for the index of a handle, which is not negative.\<close>

fun decimal :: "nat \<Rightarrow> string" where
  "decimal n =
     (if n < 10 then [''0123456789'' ! n]
      else decimal (n div 10) @ [''0123456789'' ! (n mod 10)])"

declare decimal.simps [simp del]

text \<open>The content of the \<^verbatim>\<open>name\<close> buffer as a C string.  \<open>name_size\<close> stands for
  \<^verbatim>\<open>sizeof(arr[num].name)\<close>, declared in a header outside the sources at hand.  Both
  \<^verbatim>\<open>snprintf\<close> and \<^verbatim>\<open>strncpy\<close> followed by the write of the final \<^verbatim>\<open>'\0'\<close> keep at
  most \<open>name_size - 1\<close> characters.\<close>

definition resolved_name :: "nat \<Rightarrow> HAL_NotifierHandle \<Rightarrow> Notifier \<Rightarrow> string" where
  "resolved_name name_size handle n =
     (if name n = [] then take (name_size - 1) (''Notifier'' @ decimal (getHandleIndex handle))
      else take (name_size - 1) (name n))"

text \<open>The four assignments to \<^verbatim>\<open>arr[num]\<close>.\<close>

definition make_info :: "nat \<Rightarrow> HAL_NotifierHandle \<Rightarrow> Notifier \<Rightarrow> HALSIM_NotifierInfo" where
  "make_info name_size handle n =
     \<lparr>handle_info = handle,
      name_info = resolved_name name_size handle n,
      timeout_info = waitTime n,
      running_info = running n\<rparr>"

text \<open>The visitor of \<^verbatim>\<open>HALSIM_GetNotifierInfo\<close>.  \<open>num\<close> and \<open>size'\<close> (the parameter \<^verbatim>\<open>size\<close>) are signed 32-bit;
  the caller's array \<open>arr\<close> is a list, and a write needs \<^verbatim>\<open>num < size\<close>.  The caller
  passes the capacity of the array as \<^verbatim>\<open>size\<close>; a write beyond the end of the list, which
  in C would leave the array, changes nothing in the model and no statement below speaks
  about such an index.\<close>

definition info_visit ::
  "nat \<Rightarrow> int32_t \<Rightarrow> HAL_NotifierHandle \<Rightarrow> ref
     \<Rightarrow> HALSIM_NotifierInfo list \<times> int32_t \<times> hal_state
     \<Rightarrow> HALSIM_NotifierInfo list \<times> int32_t \<times> hal_state" where
  "info_visit name_size size' handle r acc =
     (let (arr, num, s) = acc;
          s = emit [Lock (notifier_mutex r)] s;
          n = heap s r
      in if \<not> active n then (arr, num, emit [Unlock (notifier_mutex r)] s)
         else
           (let arr = (if sint num < sint size'
                       then arr[nat (sint num) := make_info name_size handle n]
                       else arr)
            in (arr, num + 1, emit [Unlock (notifier_mutex r)] s)))"

definition HALSIM_GetNotifierInfo ::
  "nat \<Rightarrow> HALSIM_NotifierInfo list \<Rightarrow> int32_t \<Rightarrow> hal_state
     \<Rightarrow> HALSIM_NotifierInfo list \<times> int32_t \<times> hal_state" where
  "HALSIM_GetNotifierInfo name_size arr size' s =
     ForEach (info_visit name_size size') s (arr, 0, s)"

text \<open>The state after \<^verbatim>\<open>hal::init::InitializeNotifier\<close>: an empty registry of the given
  capacity, nothing paused, no object allocated.\<close>

definition InitializeNotifier_state :: "nat \<Rightarrow> hal_state" where
  "InitializeNotifier_state limit =
     \<lparr>heap = (\<lambda>r. make_Notifier), next_ref = 0, m_structures = [], m_limit = limit,
      notifiersPaused = False, trace = []\<rparr>"

section \<open>Notions used to state the claims\<close>

text \<open>The number of calls of \<^verbatim>\<open>HAL_WaitForNotifierAlarm\<close> in a sequence of operations
  that find their handle registered for the object \<open>r\<close>.\<close>

fun waits_begun :: "ref \<Rightarrow> op list \<Rightarrow> hal_state \<Rightarrow> nat" where
  "waits_begun r [] s = 0"
| "waits_begun r (x # ops) s =
     (case x of WaitBegin h \<Rightarrow> (if Get s h = Some r then 1 else 0) | _ \<Rightarrow> 0)
       + waits_begun r ops (run_op x s)"


text \<open>Two states with the same objects, registry and paused flag; they may differ in the
  synchronisation actions recorded so far.\<close>

definition same_objects :: "hal_state \<Rightarrow> hal_state \<Rightarrow> bool" where
  "same_objects s u \<longleftrightarrow>
     heap s = heap u \<and> next_ref s = next_ref u \<and> m_structures s = m_structures u \<and>
     m_limit s = m_limit u \<and> notifiersPaused s = notifiersPaused u"

section \<open>Example states\<close>

text \<open>States reached from the initial state by the exposed operations, used to run the
  theorems below on concrete inputs: one notifier created; one notifier created and armed
  for the deadline \<open>d\<close>.\<close>

definition example_created :: hal_state where
  "example_created = run_ops [InitializeNotifier (- 1098)] (InitializeNotifier_state 4)"

definition example_armed :: "uint64_t \<Rightarrow> hal_state" where
  "example_armed d =
     run_ops [InitializeNotifier (- 1098), UpdateNotifierAlarm (Handle 0) d]
       (InitializeNotifier_state 4)"

text \<open>A registry of capacity one whose only handle has been freed, a registry of capacity
  one whose only slot is taken, and a notifier whose name is 64 characters long.\<close>

definition example_freed :: hal_state where
  "example_freed =
     run_ops [InitializeNotifier (- 1098), CleanNotifier (Handle 0)] (InitializeNotifier_state 1)"

definition example_full :: hal_state where
  "example_full = run_ops [InitializeNotifier (- 1098)] (InitializeNotifier_state 1)"

definition example_long_name :: hal_state where
  "example_long_name =
     run_ops [InitializeNotifier (- 1098), SetNotifierName (Handle 0) (replicate 64 (CHR ''x''))]
       (InitializeNotifier_state 4)"

text \<open>A notifier armed for the deadline 500 on which one wait has begun.\<close>

definition example_waiting :: hal_state where
  "example_waiting =
     run_ops [InitializeNotifier (- 1098), UpdateNotifierAlarm (Handle 0) 500,
              WaitBegin (Handle 0)] (InitializeNotifier_state 4)"

definition blank_info :: HALSIM_NotifierInfo where
  "blank_info = \<lparr>handle_info = HAL_kInvalidHandle, name_info = [], timeout_info = 0,
                  running_info = False\<rparr>"

section \<open>Basic facts\<close>

lemma heap_emit [simp]: "heap (emit es s) = heap s"
  and next_ref_emit [simp]: "next_ref (emit es s) = next_ref s"
  and m_structures_emit [simp]: "m_structures (emit es s) = m_structures s"
  and m_limit_emit [simp]: "m_limit (emit es s) = m_limit s"
  and notifiersPaused_emit [simp]: "notifiersPaused (emit es s) = notifiersPaused s"
  and trace_emit [simp]: "trace (emit es s) = trace s @ es"
  by (simp_all add: emit_def)

lemma heap_modify [simp]: "heap (modify r f s) = (heap s)(r := f (heap s r))"
  and next_ref_modify [simp]: "next_ref (modify r f s) = next_ref s"
  and m_structures_modify [simp]: "m_structures (modify r f s) = m_structures s"
  and m_limit_modify [simp]: "m_limit (modify r f s) = m_limit s"
  and notifiersPaused_modify [simp]: "notifiersPaused (modify r f s) = notifiersPaused s"
  and trace_modify [simp]: "trace (modify r f s) = trace s"
  by (simp_all add: modify_def)

lemma Get_emit [simp]: "Get (emit es s) h = Get s h"
  by (cases h) (simp_all add: Get_def)

lemma Get_modify [simp]: "Get (modify r f s) h = Get s h"
  by (cases h) (simp_all add: Get_def)

lemma Get_updates [simp]:
  "Get (s\<lparr>heap := hp\<rparr>) h = Get s h"
  "Get (s\<lparr>trace := tr\<rparr>) h = Get s h"
  "Get (s\<lparr>notifiersPaused := p\<rparr>) h = Get s h"
  "Get (s\<lparr>next_ref := k\<rparr>) h = Get s h"
  by (cases h; simp add: Get_def)+

lemma first_free_None_iff: "first_free xs = None \<longleftrightarrow> None \<notin> set xs"
  by (induction xs rule: first_free.induct) auto

lemma first_free_Some: "first_free xs = Some i \<Longrightarrow> i < length xs \<and> xs ! i = None"
  by (induction xs arbitrary: i rule: first_free.induct) auto

lemma Allocate_fields:
  "heap (snd (Allocate r s)) = heap s"
  "next_ref (snd (Allocate r s)) = next_ref s"
  "m_limit (snd (Allocate r s)) = m_limit s"
  "notifiersPaused (snd (Allocate r s)) = notifiersPaused s"
  "trace (snd (Allocate r s)) = trace s"
  by (simp_all add: Allocate_def split: option.split)

lemma Allocate_invalid_iff:
  "fst (Allocate r s) = HAL_kInvalidHandle \<longleftrightarrow>
     None \<notin> set (m_structures s) \<and> m_limit s \<le> length (m_structures s)"
  by (auto simp add: Allocate_def first_free_None_iff [symmetric] split: option.split)

lemma Allocate_invalid_state: "fst (Allocate r s) = HAL_kInvalidHandle \<Longrightarrow> snd (Allocate r s) = s"
  by (simp add: Allocate_def split: option.splits if_splits)

lemma Allocate_Get:
  "fst (Allocate r s) \<noteq> HAL_kInvalidHandle \<Longrightarrow>
   Get (snd (Allocate r s)) (fst (Allocate r s)) = Some r"
  by (auto simp add: Allocate_def Get_def nth_append dest: first_free_Some split: option.splits if_splits)

lemma Allocate_cong:
  "m_structures s = m_structures u \<Longrightarrow> m_limit s = m_limit u \<Longrightarrow>
   fst (Allocate r s) = fst (Allocate r u) \<and>
   m_structures (snd (Allocate r s)) = m_structures (snd (Allocate r u))"
  by (simp add: Allocate_def split: option.split)

lemma HAL_InitializeNotifier_eq:
  "HAL_InitializeNotifier e status s =
     (if None \<notin> set (m_structures s) \<and> m_limit s \<le> length (m_structures s)
      then (HAL_kInvalidHandle, e, s)
      else (fst (Allocate (next_ref s)
                  (s\<lparr>heap := (heap s)(next_ref s := make_Notifier), next_ref := Suc (next_ref s)\<rparr>)),
            status,
            snd (Allocate (next_ref s)
                  (s\<lparr>heap := (heap s)(next_ref s := make_Notifier), next_ref := Suc (next_ref s)\<rparr>))))"
  using Allocate_invalid_iff [of "next_ref s"
      "s\<lparr>heap := (heap s)(next_ref s := make_Notifier), next_ref := Suc (next_ref s)\<rparr>"]
  by (simp add: HAL_InitializeNotifier_def Let_def split_beta)


lemmas hal_defs = run_ops_def HAL_InitializeNotifier_def Allocate_def InitializeNotifier_state_def
  HAL_UpdateNotifierAlarm_def HAL_CancelNotifierAlarm_def HAL_StopNotifier_def
  HAL_CleanNotifier_def HAL_SetNotifierName_def Get_def Free_def emit_def modify_def
  deactivate_def make_Notifier_def wait_begin_def wait_iteration_def PauseNotifiers_def
  ResumeNotifiers_def WakeupNotifiers_def ForEach_def entries_def UINT64_MAX_def
  HAL_WaitForNotifierAlarm_def NotifierHandleContainer_dtor_def Let_def

lemma Get_example_created: "Get example_created (Handle 0) = Some 0"
  by (simp add: example_created_def hal_defs)

lemma trace_example_created: "trace example_created = []"
  by (simp add: example_created_def hal_defs)

lemma Get_example_armed: "Get (example_armed d) (Handle 0) = Some 0"
  by (simp add: example_armed_def hal_defs)

section \<open>The registry enumerates what lookup finds\<close>

lemma set_entries_from:
  "set (entries_from i xs) = {(Handle (i + k), r) | k r. k < length xs \<and> xs ! k = Some r}"
proof (induction i xs rule: entries_from.induct)
  case (1 i)
  then show ?case by simp
next
  case (2 i xs)
  have "{(Handle (i + k), r) | k r. k < length (None # xs) \<and> (None # xs) ! k = Some r}
      = {(Handle (Suc i + k), r) | k r. k < length xs \<and> xs ! k = Some r}"
    (is "?L = ?R")
  proof (intro set_eqI iffI)
    fix x assume "x \<in> ?L"
    then obtain k r where x: "x = (Handle (i + k), r)" and k: "k < length (None # xs)"
      and v: "(None # xs) ! k = Some r" by blast
    from v obtain k' where "k = Suc k'" by (cases k) auto
    with x k v show "x \<in> ?R" by auto
  next
    fix x assume "x \<in> ?R"
    then obtain k r where "x = (Handle (Suc i + k), r)" "k < length xs" "xs ! k = Some r" by blast
    then have "x = (Handle (i + Suc k), r) \<and> Suc k < length (None # xs) \<and> (None # xs) ! Suc k = Some r"
      by simp
    then show "x \<in> ?L" by blast
  qed
  with 2 show ?case by simp
next
  case (3 i r0 xs)
  have "{(Handle (i + k), r) | k r. k < length (Some r0 # xs) \<and> (Some r0 # xs) ! k = Some r}
      = insert (Handle i, r0) {(Handle (Suc i + k), r) | k r. k < length xs \<and> xs ! k = Some r}"
    (is "?L = ?R")
  proof (intro set_eqI iffI)
    fix x assume "x \<in> ?L"
    then obtain k r where x: "x = (Handle (i + k), r)" and k: "k < length (Some r0 # xs)"
      and v: "(Some r0 # xs) ! k = Some r" by blast
    show "x \<in> ?R"
    proof (cases k)
      case 0
      with x v show ?thesis by simp
    next
      case (Suc k')
      with x k v show ?thesis by auto
    qed
  next
    fix x assume "x \<in> ?R"
    then consider "x = (Handle i, r0)"
      | k r where "x = (Handle (Suc i + k), r)" "k < length xs" "xs ! k = Some r" by blast
    then show "x \<in> ?L"
    proof cases
      case 1
      then have "x = (Handle (i + 0), r0) \<and> 0 < length (Some r0 # xs) \<and> (Some r0 # xs) ! 0 = Some r0"
        by simp
      then show ?thesis by blast
    next
      case 2
      then have "x = (Handle (i + Suc k), r) \<and> Suc k < length (Some r0 # xs) \<and> (Some r0 # xs) ! Suc k = Some r"
        by simp
      then show ?thesis by blast
    qed
  qed
  with 3 show ?case by simp
qed

lemma set_entries: "set (entries s) = {(h, r). Get s h = Some r}"
proof -
  have "{(h, r). Get s h = Some r} =
        {(Handle (0 + k), r) | k r. k < length (m_structures s) \<and> m_structures s ! k = Some r}"
    by (auto simp: Get_def split: HAL_NotifierHandle.splits if_splits)
  then show ?thesis by (simp only: entries_def set_entries_from)
qed

lemma num_fold:
  "heap s' = heap s \<Longrightarrow>
   fst (fold (\<lambda>(h, r). num_visit h r) es (c, s')) =
     c + of_nat (length (filter (\<lambda>(h, r). active (heap s r)) es)) \<and>
   heap (snd (fold (\<lambda>(h, r). num_visit h r) es (c, s'))) = heap s"
proof (induction es arbitrary: c s')
  case Nil
  then show ?case by simp
next
  case (Cons e es)
  obtain h r where e: "e = (h, r)" by (cases e)
  let ?s = "emit [Unlock (notifier_mutex r)] (emit [Lock (notifier_mutex r)] s')"
  let ?c = "if active (heap s r) then c + 1 else c"
  have step: "num_visit h r (c, s') = (?c, ?s)"
    using Cons.prems by (simp add: num_visit_def Let_def)
  have "heap ?s = heap s" using Cons.prems by simp
  from Cons.IH [OF this, of ?c] show ?case
    by (simp add: e step)
qed


section \<open>Folding the introspection visitors\<close>

lemma next_timeout_fold:
  "heap s' = heap s \<Longrightarrow>
   fst (fold (\<lambda>(h, r). next_timeout_visit h r) es (t, s')) =
     fold min (map (\<lambda>(h, r). waitTime (heap s r))
                 (filter (\<lambda>(h, r). active (heap s r) \<and> running (heap s r)) es)) t
   \<and> heap (snd (fold (\<lambda>(h, r). next_timeout_visit h r) es (t, s'))) = heap s"
proof (induction es arbitrary: t s')
  case Nil
  then show ?case by simp
next
  case (Cons e es)
  obtain h r where e: "e = (h, r)" by (cases e)
  let ?t = "if active (heap s r) \<and> running (heap s r) \<and> waitTime (heap s r) < t
            then waitTime (heap s r) else t"
  let ?s = "emit [Unlock (notifier_mutex r)] (emit [Lock (notifier_mutex r)] s')"
  have step: "next_timeout_visit h r (t, s') = (?t, ?s)"
    using Cons.prems by (simp add: next_timeout_visit_def Let_def)
  have "heap ?s = heap s" using Cons.prems by simp
  from Cons.IH [OF this, of ?t] show ?case
    by (auto simp add: e step min_def)
qed

lemma sint_of_nat_small: "k < 2 ^ 31 \<Longrightarrow> sint (of_nat k :: 32 word) = int k"
  by (simp add: signed_of_nat signed_take_bit_int_eq_self)

lemma info_fold:
  assumes "heap s' = heap s"
    and "k + length (filter (\<lambda>(h, r). active (heap s r)) es) < 2 ^ 31"
  shows "\<exists>arr' s''.
     fold (\<lambda>(h, r). info_visit name_size size' h r) es (arr, of_nat k, s') =
       (arr', of_nat (k + length (filter (\<lambda>(h, r). active (heap s r)) es)), s'') \<and>
     heap s'' = heap s \<and> length arr' = length arr \<and>
     (\<forall>i < length arr. arr' ! i =
        (if k \<le> i \<and> i < k + length (filter (\<lambda>(h, r). active (heap s r)) es) \<and> int i < sint size'
         then (\<lambda>(h, r). make_info name_size h (heap s r))
                (filter (\<lambda>(h, r). active (heap s r)) es ! (i - k))
         else arr ! i))"
  using assms
proof (induction es arbitrary: arr k s')
  case Nil
  then show ?case by auto
next
  case (Cons e es)
  obtain h r where e: "e = (h, r)" by (cases e)
  let ?live = "filter (\<lambda>(h, r). active (heap s r))"
  let ?s = "emit [Unlock (notifier_mutex r)] (emit [Lock (notifier_mutex r)] s')"
  let ?F = "\<lambda>(h, r). info_visit name_size size' h r"
  have foldstep: "fold ?F (e # es) (arr, of_nat k, s') =
                  fold ?F es (info_visit name_size size' h r (arr, of_nat k, s'))"
    by (simp add: e)
  have hs: "heap ?s = heap s" using Cons.prems by simp
  show ?case
  proof (cases "active (heap s r)")
    case False
    then have step: "info_visit name_size size' h r (arr, of_nat k, s') = (arr, of_nat k, ?s)"
      using Cons.prems by (simp add: info_visit_def Let_def)
    have live: "?live (e # es) = ?live es" using False e by simp
    from Cons.IH [OF hs, of k arr] Cons.prems(2) show ?thesis
      unfolding foldstep step live by simp
  next
    case True
    note act = True
    have k: "k < 2 ^ 31" using Cons.prems(2) by simp
    let ?arr = "if int k < sint size' then arr[k := make_info name_size h (heap s r)] else arr"
    have step: "info_visit name_size size' h r (arr, of_nat k, s') = (?arr, of_nat (Suc k), ?s)"
      using Cons.prems(1) True k by (simp add: info_visit_def Let_def sint_of_nat_small)
    have live: "?live (e # es) = e # ?live es" using True e by simp
    have "Suc k + length (?live es) < 2 ^ 31" using Cons.prems(2) live by simp
    from Cons.IH [OF hs this, of ?arr] obtain arr' s'' where
      f: "fold (\<lambda>(h, r). info_visit name_size size' h r) es (?arr, of_nat (Suc k), ?s) =
            (arr', of_nat (Suc k + length (?live es)), s'')"
      and h: "heap s'' = heap s" and l: "length arr' = length ?arr"
      and c: "\<forall>i < length ?arr. arr' ! i =
        (if Suc k \<le> i \<and> i < Suc k + length (?live es) \<and> int i < sint size'
         then (\<lambda>(h, r). make_info name_size h (heap s r)) (?live es ! (i - Suc k))
         else ?arr ! i)"
      by blast
    have "\<forall>i < length arr. arr' ! i =
        (if k \<le> i \<and> i < k + length (?live (e # es)) \<and> int i < sint size'
         then (\<lambda>(h, r). make_info name_size h (heap s r)) (?live (e # es) ! (i - k))
         else arr ! i)"
    proof (intro allI impI)
      fix i assume i: "i < length arr"
      then have "i < length ?arr" by simp
      with c have ci: "arr' ! i =
        (if Suc k \<le> i \<and> i < Suc k + length (?live es) \<and> int i < sint size'
         then (\<lambda>(h, r). make_info name_size h (heap s r)) (?live es ! (i - Suc k))
         else ?arr ! i)" by blast
      show "arr' ! i =
        (if k \<le> i \<and> i < k + length (?live (e # es)) \<and> int i < sint size'
         then (\<lambda>(h, r). make_info name_size h (heap s r)) (?live (e # es) ! (i - k))
         else arr ! i)"
      proof (cases "i = k")
        case True
        then show ?thesis using ci i act by (simp add: live e)
      next
        case False
        have nth: "(e # ?live es) ! (i - k) = ?live es ! (i - Suc k)" if "Suc k \<le> i"
          using that by (simp add: nth_Cons')
        have old: "?arr ! i = arr ! i" using False by simp
        show ?thesis
        proof (cases "Suc k \<le> i")
          case True
          then show ?thesis unfolding live ci old nth [OF True] by simp
        next
          case False
          with \<open>i \<noteq> k\<close> have "i < k" by simp
          then show ?thesis unfolding live ci old by simp
        qed
      qed
    qed
    moreover have "fold ?F (e # es) (arr, of_nat k, s') =
        (arr', of_nat (k + length (?live (e # es))), s'')"
      unfolding foldstep step live using f by simp
    moreover have "length arr' = length arr" using l by simp
    ultimately show ?thesis using h by blast
  qed
qed


section \<open>Claims about arming and cancelling\<close>

text \<open>
  C4.  For every known handle and every deadline value \<open>d\<close>, update-alarm sets the object's
  deadline (\<open>waitTime\<close>) to \<open>d\<close>, sets armed (\<open>running\<close>) to \<open>d \<noteq> UINT64_MAX\<close>, leaves
  name, alive flag and wake count of the object, every other object, the registry and the
  paused flag unchanged, and performs exactly lock, unlock, notify on the object, in this
  order: the notification comes after the lock is released, also when \<open>d\<close> is the sentinel
  and the call disarms.  The status output is not written.
\<close>

theorem update_alarm_effect:
  assumes "Get s h = Some r"
  shows "HAL_UpdateNotifierAlarm h d status s =
           (status,
            s\<lparr>heap := (heap s)(r := (heap s r)\<lparr>waitTime := d, running := (d \<noteq> UINT64_MAX)\<rparr>),
              trace := trace s @ [Lock (notifier_mutex r), Unlock (notifier_mutex r),
                                  NotifyAll (notifier_cond r)]\<rparr>)"
  using assms by (simp add: HAL_UpdateNotifierAlarm_def emit_def modify_def)

theorem update_alarm_effect_witness:
  "Get example_created (Handle 0) = Some 0 \<and>
   waitTime (heap (snd (HAL_UpdateNotifierAlarm (Handle 0) 5 0 example_created)) 0) = 5 \<and>
   running (heap (snd (HAL_UpdateNotifierAlarm (Handle 0) 5 0 example_created)) 0) \<and>
   \<not> running (heap (snd (HAL_UpdateNotifierAlarm (Handle 0) UINT64_MAX 0 example_created)) 0) \<and>
   trace (snd (HAL_UpdateNotifierAlarm (Handle 0) UINT64_MAX 0 example_created)) =
     [Lock (notifier_mutex 0), Unlock (notifier_mutex 0), NotifyAll (notifier_cond 0)]"
  using update_alarm_effect [OF Get_example_created, of 5 0]
    update_alarm_effect [OF Get_example_created, of UINT64_MAX 0]
  by (simp add: UINT64_MAX_def trace_example_created Get_example_created)

text \<open>
  C10.  For every known handle, cancel-alarm sets armed (\<open>running\<close>) to false and performs
  lock and unlock of the object's mutex and nothing else: no condition variable is notified.
  Deadline, wake count, name and alive flag of the object, every other object, the registry
  and the paused flag are as before the call, and the status output is not written.
\<close>

theorem cancel_alarm_effect:
  assumes "Get s h = Some r"
  shows "HAL_CancelNotifierAlarm h status s =
           (status,
            s\<lparr>heap := (heap s)(r := (heap s r)\<lparr>running := False\<rparr>),
              trace := trace s @ [Lock (notifier_mutex r), Unlock (notifier_mutex r)]\<rparr>)"
  using assms by (simp add: HAL_CancelNotifierAlarm_def emit_def modify_def)

theorem cancel_alarm_effect_witness:
  "Get (example_armed 7) (Handle 0) = Some 0 \<and>
   running (heap (example_armed 7) 0) \<and>
   \<not> running (heap (snd (HAL_CancelNotifierAlarm (Handle 0) 0 (example_armed 7))) 0) \<and>
   waitTime (heap (snd (HAL_CancelNotifierAlarm (Handle 0) 0 (example_armed 7))) 0) = 7 \<and>
   active (heap (snd (HAL_CancelNotifierAlarm (Handle 0) 0 (example_armed 7))) 0) \<and>
   Get (snd (HAL_CancelNotifierAlarm (Handle 0) 0 (example_armed 7))) (Handle 0) = Some 0 \<and>
   trace (snd (HAL_CancelNotifierAlarm (Handle 0) 0 (example_armed 7))) =
     trace (example_armed 7) @ [Lock (notifier_mutex 0), Unlock (notifier_mutex 0)]"
proof -
  have r: "running (heap (example_armed 7) 0)" "waitTime (heap (example_armed 7) 0) = 7"
    "active (heap (example_armed 7) 0)"
    by (simp_all add: example_armed_def hal_defs)
  show ?thesis
    using cancel_alarm_effect [OF Get_example_armed [of 7], of 0] r
    by (simp add: Get_example_armed)
qed

section \<open>The wait loop, iteration by iteration\<close>

text \<open>A result of the loop is traced back to the iteration that produced it: the schedule
  splits into a prefix in which every iteration went to sleep, the deciding iteration, and
  a rest that is never reached.  \<open>wait_loop r pre s = (Blocked, s_k)\<close> says that all
  iterations of \<open>pre\<close> slept and that \<open>s_k\<close> is the state afterwards, with the
  operations of the other threads applied.\<close>

lemma wait_iteration_cases:
  "wait_iteration r t s =
     (if \<not> active (heap s r) then (LoopExit, emit [Unlock (notifier_mutex r)] s)
      else if running (heap s r) \<and> waitTime (heap s r) \<le> t
      then (Fire t, emit [Unlock (notifier_mutex r)] (modify r (\<lambda>n. n\<lparr>running := False\<rparr>) s))
      else (Sleep (if \<not> running (heap s r) \<or> notifiersPaused s then Seconds1000
                   else Microseconds (waitTime (heap s r) - t)),
            emit [WaitFor (notifier_cond r) (notifier_mutex r)
                    (if \<not> running (heap s r) \<or> notifiersPaused s then Seconds1000
                     else Microseconds (waitTime (heap s r) - t))] s))"
  by (simp add: wait_iteration_def Let_def)

lemma wait_loop_append_Blocked:
  "wait_loop r pre s = (Blocked, s_k) \<Longrightarrow> wait_loop r (pre @ post) s = wait_loop r post s_k"
proof (induction pre arbitrary: s)
  case Nil
  then show ?case by simp
next
  case (Cons x pre)
  obtain t others where x: "x = (t, others)" by (cases x)
  from Cons.prems show ?case
    by (auto simp add: x wait_iteration_cases Cons.IH split: if_splits)
qed

lemma wait_loop_Fired_iff:
  "wait_loop r sched s = (Fired t, s') \<longleftrightarrow>
   (\<exists>pre others post s_k. sched = pre @ (t, others) # post \<and>
      wait_loop r pre s = (Blocked, s_k) \<and>
      active (heap s_k r) \<and> running (heap s_k r) \<and> waitTime (heap s_k r) \<le> t \<and>
      s' = emit [Unlock (notifier_mutex r)] (modify r (\<lambda>n. n\<lparr>running := False\<rparr>) s_k))"
  (is "?L sched s \<longleftrightarrow> ?R sched s")
proof
  show "?L sched s \<Longrightarrow> ?R sched s"
  proof (induction sched arbitrary: s)
    case Nil
    then show ?case by simp
  next
    case (Cons x sched)
    obtain u others where x: "x = (u, others)" by (cases x)
    show ?case
    proof (cases "fst (wait_iteration r u s)")
      case LoopExit
      with Cons.prems show ?thesis by (auto simp: x wait_iteration_cases split: if_splits)
    next
      case (Fire v)
      with Cons.prems have "u = t" "active (heap s r)" "running (heap s r)" "waitTime (heap s r) \<le> t"
        "s' = emit [Unlock (notifier_mutex r)] (modify r (\<lambda>n. n\<lparr>running := False\<rparr>) s)"
        by (auto simp: x wait_iteration_cases split: if_splits)
      then have "x # sched = [] @ (t, others) # sched \<and> wait_loop r [] s = (Blocked, s) \<and>
        active (heap s r) \<and> running (heap s r) \<and> waitTime (heap s r) \<le> t \<and>
        s' = emit [Unlock (notifier_mutex r)] (modify r (\<lambda>n. n\<lparr>running := False\<rparr>) s)"
        by (simp add: x)
      then show ?thesis by blast
    next
      case (Sleep d)
      then obtain s0 where it: "wait_iteration r u s = (Sleep d, s0)"
        by (cases "wait_iteration r u s") auto
      let ?s1 = "run_ops others s0"
      from Cons.prems it have "wait_loop r sched ?s1 = (Fired t, s')"
        by (simp add: x)
      from Cons.IH [OF this] obtain pre others' post s_k where
        s: "sched = pre @ (t, others') # post" and b: "wait_loop r pre ?s1 = (Blocked, s_k)"
        and p: "active (heap s_k r)" "running (heap s_k r)" "waitTime (heap s_k r) \<le> t"
          "s' = emit [Unlock (notifier_mutex r)] (modify r (\<lambda>n. n\<lparr>running := False\<rparr>) s_k)"
        by blast
      have "x # sched = (x # pre) @ (t, others') # post" using s by simp
      moreover have "wait_loop r (x # pre) s = (Blocked, s_k)"
        using b it by (simp add: x)
      ultimately show ?thesis using p by blast
    qed
  qed
next
  assume "?R sched s"
  then obtain pre others post s_k where
    s: "sched = pre @ (t, others) # post" and b: "wait_loop r pre s = (Blocked, s_k)"
    and p: "active (heap s_k r)" "running (heap s_k r)" "waitTime (heap s_k r) \<le> t"
      "s' = emit [Unlock (notifier_mutex r)] (modify r (\<lambda>n. n\<lparr>running := False\<rparr>) s_k)"
    by blast
  have "wait_loop r sched s = wait_loop r ((t, others) # post) s_k"
    unfolding s using b by (rule wait_loop_append_Blocked)
  then show "?L sched s" using p by (simp add: wait_iteration_cases)
qed

lemma wait_loop_Stopped_iff:
  "wait_loop r sched s = (Stopped, s') \<longleftrightarrow>
   (\<exists>pre x post s_k. sched = pre @ x # post \<and>
      wait_loop r pre s = (Blocked, s_k) \<and> \<not> active (heap s_k r) \<and>
      s' = emit [Unlock (notifier_mutex r)] s_k)"
  (is "?L sched s \<longleftrightarrow> ?R sched s")
proof
  show "?L sched s \<Longrightarrow> ?R sched s"
  proof (induction sched arbitrary: s)
    case Nil
    then show ?case by simp
  next
    case (Cons x sched)
    obtain u others where x: "x = (u, others)" by (cases x)
    show ?case
    proof (cases "fst (wait_iteration r u s)")
      case LoopExit
      with Cons.prems have "\<not> active (heap s r)" "s' = emit [Unlock (notifier_mutex r)] s"
        by (auto simp: x wait_iteration_cases split: if_splits)
      then have "x # sched = [] @ x # sched \<and> wait_loop r [] s = (Blocked, s) \<and>
        \<not> active (heap s r) \<and> s' = emit [Unlock (notifier_mutex r)] s"
        by simp
      then show ?thesis by blast
    next
      case (Fire v)
      with Cons.prems show ?thesis by (auto simp: x wait_iteration_cases split: if_splits)
    next
      case (Sleep d)
      then obtain s0 where it: "wait_iteration r u s = (Sleep d, s0)"
        by (cases "wait_iteration r u s") auto
      let ?s1 = "run_ops others s0"
      from Cons.prems it have "wait_loop r sched ?s1 = (Stopped, s')"
        by (simp add: x)
      from Cons.IH [OF this] obtain pre y post s_k where
        s: "sched = pre @ y # post" and b: "wait_loop r pre ?s1 = (Blocked, s_k)"
        and p: "\<not> active (heap s_k r)" "s' = emit [Unlock (notifier_mutex r)] s_k"
        by blast
      have "x # sched = (x # pre) @ y # post" using s by simp
      moreover have "wait_loop r (x # pre) s = (Blocked, s_k)"
        using b it by (simp add: x)
      ultimately show ?thesis using p by blast
    qed
  qed
next
  assume "?R sched s"
  then obtain pre x post s_k where
    s: "sched = pre @ x # post" and b: "wait_loop r pre s = (Blocked, s_k)"
    and p: "\<not> active (heap s_k r)" "s' = emit [Unlock (notifier_mutex r)] s_k"
    by blast
  obtain u others where x: "x = (u, others)" by (cases x)
  have "wait_loop r sched s = wait_loop r (x # post) s_k"
    unfolding s using b by (rule wait_loop_append_Blocked)
  then show "?L sched s" using p by (simp add: x wait_iteration_cases)
qed

lemma wait_loop_not_Unknown: "fst (wait_loop r sched s) \<noteq> Unknown"
proof (induction sched arbitrary: s)
  case Nil
  then show ?case by simp
next
  case (Cons x sched)
  obtain u others where x: "x = (u, others)" by (cases x)
  show ?case using Cons.IH by (simp add: x wait_iteration_cases)
qed

lemma HAL_Wait_known:
  "Get s h = Some r \<Longrightarrow>
   HAL_WaitForNotifierAlarm h sched status s =
     (fst (wait_loop r sched (wait_begin r s)), status, snd (wait_loop r sched (wait_begin r s)))"
  by (simp add: HAL_WaitForNotifierAlarm_def split: prod.split)

lemma heap_WakeupNotifiers_fold:
  "heap (fold (\<lambda>(h, r). emit [NotifyAll (notifier_cond r)]) es s) = heap s \<and>
   notifiersPaused (fold (\<lambda>(h, r). emit [NotifyAll (notifier_cond r)]) es s) = notifiersPaused s \<and>
   m_structures (fold (\<lambda>(h, r). emit [NotifyAll (notifier_cond r)]) es s) = m_structures s \<and>
   next_ref (fold (\<lambda>(h, r). emit [NotifyAll (notifier_cond r)]) es s) = next_ref s \<and>
   m_limit (fold (\<lambda>(h, r). emit [NotifyAll (notifier_cond r)]) es s) = m_limit s"
proof (induction es arbitrary: s)
  case Nil
  then show ?case by simp
next
  case (Cons e es)
  obtain h r where e: "e = (h, r)" by (cases e)
  show ?case using Cons.IH [of "emit [NotifyAll (notifier_cond r)] s"] by (simp add: e)
qed

lemma wait_iteration_trace:
  "trace (snd (wait_iteration r t s)) =
     trace s @
       [if active (heap s r) \<and> \<not> (running (heap s r) \<and> waitTime (heap s r) \<le> t)
        then WaitFor (notifier_cond r) (notifier_mutex r)
               (if \<not> running (heap s r) \<or> notifiersPaused s then Seconds1000
                else Microseconds (waitTime (heap s r) - t))
        else Unlock (notifier_mutex r)]"
  by (simp add: wait_iteration_cases)

lemma notify_fold_eq:
  "fold (\<lambda>(h, r). emit [NotifyAll (notifier_cond r)]) es s =
     s\<lparr>trace := trace s @ map (\<lambda>(h, r). NotifyAll (notifier_cond r)) es\<rparr>"
proof (induction es arbitrary: s)
  case Nil
  show ?case by simp
next
  case (Cons e es)
  obtain h r where e: "e = (h, r)" by (cases e)
  have "fold (\<lambda>(h, r). emit [NotifyAll (notifier_cond r)]) (e # es) s =
        fold (\<lambda>(h, r). emit [NotifyAll (notifier_cond r)]) es (emit [NotifyAll (notifier_cond r)] s)"
    by (simp add: e)
  also have "\<dots> = (emit [NotifyAll (notifier_cond r)] s)\<lparr>trace :=
      trace (emit [NotifyAll (notifier_cond r)] s) @ map (\<lambda>(h, r). NotifyAll (notifier_cond r)) es\<rparr>"
    by (rule Cons.IH)
  also have "\<dots> = s\<lparr>trace := trace s @ map (\<lambda>(h, r). NotifyAll (notifier_cond r)) (e # es)\<rparr>"
    by (simp add: e emit_def)
  finally show ?case .
qed

lemma ResumeNotifiers_eq:
  "ResumeNotifiers s =
     s\<lparr>notifiersPaused := False,
       trace := trace s @ map (\<lambda>(h, r). NotifyAll (notifier_cond r)) (entries s)\<rparr>"
  by (simp add: ResumeNotifiers_def WakeupNotifiers_def ForEach_def notify_fold_eq entries_def)

section \<open>Claims about waiting\<close>

text \<open>
  C1, amended.  For a call of wait-for-alarm on a known handle: the call returns through
  \<^verbatim>\<open>return curTime\<close> with the value \<open>t\<close> exactly when, at some loop iteration reached
  with the object alive, armed was true and the sampled current time \<open>t\<close> was at or after
  the deadline.  It then returns that sampled time, armed is false afterwards, and the
  returned value is at or after the deadline in effect at the moment of return.  Every
  non-zero return value is such a sampled time.  The returned value is zero when the
  sampled time is zero.
\<close>

theorem wait_fires:
  assumes "Get s h = Some r"
  shows
   "(fst (HAL_WaitForNotifierAlarm h sched status s) = Fired t \<longleftrightarrow>
       (\<exists>pre others post s_k. sched = pre @ (t, others) # post \<and>
          wait_loop r pre (wait_begin r s) = (Blocked, s_k) \<and>
          active (heap s_k r) \<and> running (heap s_k r) \<and> waitTime (heap s_k r) \<le> t)) \<and>
    (fst (HAL_WaitForNotifierAlarm h sched status s) = Fired t \<longrightarrow>
       return_value (fst (HAL_WaitForNotifierAlarm h sched status s)) = Some t \<and>
       \<not> running (heap (snd (snd (HAL_WaitForNotifierAlarm h sched status s))) r) \<and>
       waitTime (heap (snd (snd (HAL_WaitForNotifierAlarm h sched status s))) r) \<le> t) \<and>
    (\<forall>v. return_value (fst (HAL_WaitForNotifierAlarm h sched status s)) = Some v \<and> v \<noteq> 0 \<longrightarrow>
       fst (HAL_WaitForNotifierAlarm h sched status s) = Fired v)"
proof -
  let ?w = "wait_loop r sched (wait_begin r s)"
  have k: "HAL_WaitForNotifierAlarm h sched status s = (fst ?w, status, snd ?w)"
    using assms by (rule HAL_Wait_known)
  have iff: "fst ?w = Fired t \<longleftrightarrow>
       (\<exists>pre others post s_k. sched = pre @ (t, others) # post \<and>
          wait_loop r pre (wait_begin r s) = (Blocked, s_k) \<and>
          active (heap s_k r) \<and> running (heap s_k r) \<and> waitTime (heap s_k r) \<le> t)"
  proof
    assume "fst ?w = Fired t"
    then have "?w = (Fired t, snd ?w)" by (metis prod.collapse)
    then show "\<exists>pre others post s_k. sched = pre @ (t, others) # post \<and>
          wait_loop r pre (wait_begin r s) = (Blocked, s_k) \<and>
          active (heap s_k r) \<and> running (heap s_k r) \<and> waitTime (heap s_k r) \<le> t"
      unfolding wait_loop_Fired_iff by blast
  next
    assume "\<exists>pre others post s_k. sched = pre @ (t, others) # post \<and>
          wait_loop r pre (wait_begin r s) = (Blocked, s_k) \<and>
          active (heap s_k r) \<and> running (heap s_k r) \<and> waitTime (heap s_k r) \<le> t"
    then have "\<exists>s'. ?w = (Fired t, s')"
      unfolding wait_loop_Fired_iff by blast
    then show "fst ?w = Fired t" by auto
  qed
  have after: "\<not> running (heap (snd ?w) r) \<and> waitTime (heap (snd ?w) r) \<le> t"
    if "fst ?w = Fired t"
  proof -
    from that have "?w = (Fired t, snd ?w)" by (metis prod.collapse)
    then obtain s_k where "waitTime (heap s_k r) \<le> t"
      "snd ?w = emit [Unlock (notifier_mutex r)] (modify r (\<lambda>n. n\<lparr>running := False\<rparr>) s_k)"
      unfolding wait_loop_Fired_iff by blast
    then show ?thesis by simp
  qed
  have nz: "fst ?w = Fired v" if "return_value (fst ?w) = Some v" "v \<noteq> 0" for v
    using that by (cases "fst ?w") auto
  have c2: "fst ?w = Fired t \<longrightarrow>
       return_value (fst ?w) = Some t \<and>
       \<not> running (heap (snd ?w) r) \<and> waitTime (heap (snd ?w) r) \<le> t"
    using after by simp
  have c3: "\<forall>v. return_value (fst ?w) = Some v \<and> v \<noteq> 0 \<longrightarrow> fst ?w = Fired v"
    using nz by blast
  from iff c2 c3 show ?thesis
    unfolding k fst_conv snd_conv by (intro conjI)
qed

theorem wait_fires_witness:
  "Get (example_armed 50) (Handle 0) = Some 0 \<and>
   fst (HAL_WaitForNotifierAlarm (Handle 0)
       [(10, []), (20, [UpdateNotifierAlarm (Handle 0) 30]), (35, [])] 0 (example_armed 50))
     = Fired 35 \<and>
   return_value (fst (HAL_WaitForNotifierAlarm (Handle 0)
       [(10, []), (20, [UpdateNotifierAlarm (Handle 0) 30]), (35, [])] 0 (example_armed 50)))
     = Some 35 \<and>
   \<not> running (heap (snd (snd (HAL_WaitForNotifierAlarm (Handle 0)
       [(10, []), (20, [UpdateNotifierAlarm (Handle 0) 30]), (35, [])] 0 (example_armed 50)))) 0) \<and>
   waitTime (heap (snd (snd (HAL_WaitForNotifierAlarm (Handle 0)
       [(10, []), (20, [UpdateNotifierAlarm (Handle 0) 30]), (35, [])] 0 (example_armed 50)))) 0)
     \<le> 35"
proof -
  let ?sched = "[(10, []), (20, [UpdateNotifierAlarm (Handle 0) 30]), (35, [])]"
  let ?pre = "[(10, []), (20, [UpdateNotifierAlarm (Handle 0) 30])]"
  let ?s_k = "run_ops [UpdateNotifierAlarm (Handle 0) 30]
                (snd (wait_iteration 0 20 (snd (wait_iteration 0 10 (wait_begin 0 (example_armed 50))))))"
  note w = wait_fires [OF Get_example_armed [of 50], of ?sched 0 35]
  have b: "wait_loop 0 ?pre (wait_begin 0 (example_armed 50)) = (Blocked, ?s_k)"
    by (simp add: example_armed_def hal_defs)
  have k: "active (heap ?s_k 0) \<and> running (heap ?s_k 0) \<and> waitTime (heap ?s_k 0) \<le> 35"
    by (simp add: example_armed_def hal_defs)
  have "?sched = ?pre @ (35, []) # []" by simp
  with b k have "\<exists>pre others post s_k. ?sched = pre @ (35, others) # post \<and>
       wait_loop 0 pre (wait_begin 0 (example_armed 50)) = (Blocked, s_k) \<and>
       active (heap s_k 0) \<and> running (heap s_k 0) \<and> waitTime (heap s_k 0) \<le> 35"
    by blast
  with w [THEN conjunct1] have f:
    "fst (HAL_WaitForNotifierAlarm (Handle 0) ?sched 0 (example_armed 50)) = Fired 35"
    by (rule iffD2)
  from w [THEN conjunct2, THEN conjunct1, THEN mp, OF f] f Get_example_armed [of 50]
  show ?thesis by (intro conjI) simp_all
qed

text \<open>
  C1 as stated says that the call returns a non-zero value whenever armed was true and the
  sampled time had reached the deadline.  With a deadline of 0 and the clock at 0 the first
  iteration fires and the call returns 0.
\<close>

theorem wait_fires_at_zero_counterexample:
  "active (heap (wait_begin 0 (example_armed 0)) 0) \<and>
   running (heap (wait_begin 0 (example_armed 0)) 0) \<and>
   waitTime (heap (wait_begin 0 (example_armed 0)) 0) \<le> 0 \<and>
   fst (HAL_WaitForNotifierAlarm (Handle 0) [(0, [])] 0 (example_armed 0)) = Fired 0 \<and>
   return_value (fst (HAL_WaitForNotifierAlarm (Handle 0) [(0, [])] 0 (example_armed 0))) = Some 0"
  by (simp add: example_armed_def hal_defs)

text \<open>
  C5, amended.  wait-for-alarm returns immediately for an unknown handle, with the state
  unmodified, and returns through the final \<^verbatim>\<open>return 0\<close> exactly when some evaluation of
  the loop condition finds the object not alive.  In both cases the value is 0, and the
  status output is never written.  The value 0 is returned in these two cases and in a
  third one only: when the alarm fires at the sampled time 0.
\<close>

theorem wait_returns_zero:
  "(Get s h = None \<longrightarrow> HAL_WaitForNotifierAlarm h sched status s = (Unknown, status, s)) \<and>
   (fst (HAL_WaitForNotifierAlarm h sched status s) = Unknown \<longleftrightarrow> Get s h = None) \<and>
   (\<forall>r. Get s h = Some r \<longrightarrow>
      (fst (HAL_WaitForNotifierAlarm h sched status s) = Stopped \<longleftrightarrow>
         (\<exists>pre x post s_k. sched = pre @ x # post \<and>
            wait_loop r pre (wait_begin r s) = (Blocked, s_k) \<and> \<not> active (heap s_k r)))) \<and>
   (return_value (fst (HAL_WaitForNotifierAlarm h sched status s)) = Some 0 \<longleftrightarrow>
      fst (HAL_WaitForNotifierAlarm h sched status s) = Unknown \<or>
      fst (HAL_WaitForNotifierAlarm h sched status s) = Stopped \<or>
      fst (HAL_WaitForNotifierAlarm h sched status s) = Fired 0) \<and>
   fst (snd (HAL_WaitForNotifierAlarm h sched status s)) = status"
proof -
  have a: "Get s h = None \<longrightarrow> HAL_WaitForNotifierAlarm h sched status s = (Unknown, status, s)"
    by (simp add: HAL_WaitForNotifierAlarm_def)
  have b: "fst (HAL_WaitForNotifierAlarm h sched status s) = Unknown \<longleftrightarrow> Get s h = None"
  proof (cases "Get s h")
    case None
    then show ?thesis by (simp add: HAL_WaitForNotifierAlarm_def)
  next
    case (Some r)
    then show ?thesis using wait_loop_not_Unknown [of r sched "wait_begin r s"]
      by (simp add: HAL_Wait_known)
  qed
  have c: "fst (HAL_WaitForNotifierAlarm h sched status s) = Stopped \<longleftrightarrow>
         (\<exists>pre x post s_k. sched = pre @ x # post \<and>
            wait_loop r pre (wait_begin r s) = (Blocked, s_k) \<and> \<not> active (heap s_k r))"
    if g: "Get s h = Some r" for r
  proof -
    let ?w = "wait_loop r sched (wait_begin r s)"
    have "fst ?w = Stopped \<longleftrightarrow> (\<exists>s'. ?w = (Stopped, s'))"
      by (metis fst_conv prod.collapse)
    also have "\<dots> \<longleftrightarrow> (\<exists>pre x post s_k. sched = pre @ x # post \<and>
            wait_loop r pre (wait_begin r s) = (Blocked, s_k) \<and> \<not> active (heap s_k r))"
      unfolding wait_loop_Stopped_iff by blast
    finally show ?thesis using g by (simp add: HAL_Wait_known)
  qed
  have d: "return_value res = Some 0 \<longleftrightarrow> res = Unknown \<or> res = Stopped \<or> res = Fired 0" for res
    by (cases res) auto
  have e: "fst (snd (HAL_WaitForNotifierAlarm h sched status s)) = status"
    by (simp add: HAL_WaitForNotifierAlarm_def split: option.split prod.split)
  have c': "\<forall>r. Get s h = Some r \<longrightarrow>
      (fst (HAL_WaitForNotifierAlarm h sched status s) = Stopped \<longleftrightarrow>
         (\<exists>pre x post s_k. sched = pre @ x # post \<and>
            wait_loop r pre (wait_begin r s) = (Blocked, s_k) \<and> \<not> active (heap s_k r)))"
    by (intro allI impI) (rule c)
  from a b c' d [of "fst (HAL_WaitForNotifierAlarm h sched status s)"] e show ?thesis
    by (intro conjI)
qed

theorem wait_returns_zero_witness:
  "Get example_freed (Handle 0) = None \<and>
   HAL_WaitForNotifierAlarm (Handle 0) [(3, [])] 0 example_freed = (Unknown, 0, example_freed) \<and>
   Get (example_armed 50) (Handle 0) = Some 0 \<and>
   fst (HAL_WaitForNotifierAlarm (Handle 0) [(10, [StopNotifier (Handle 0)]), (60, [])] 0
          (example_armed 50)) = Stopped \<and>
   return_value (fst (HAL_WaitForNotifierAlarm (Handle 0) [(10, [StopNotifier (Handle 0)]), (60, [])] 0
          (example_armed 50))) = Some 0"
proof -
  have g: "Get example_freed (Handle 0) = None"
    by (simp add: example_freed_def hal_defs)
  have b: "wait_loop 0 [(10, [StopNotifier (Handle 0)])] (wait_begin 0 (example_armed 50)) =
             (Blocked, run_ops [StopNotifier (Handle 0)]
                (snd (wait_iteration 0 10 (wait_begin 0 (example_armed 50)))))"
    by (simp add: example_armed_def hal_defs)
  have i: "\<not> active (heap (run_ops [StopNotifier (Handle 0)]
                (snd (wait_iteration 0 10 (wait_begin 0 (example_armed 50))))) 0)"
    by (simp add: example_armed_def hal_defs)
  have "\<exists>pre x post s_k. [(10, [StopNotifier (Handle 0)]), (60, [])] = pre @ x # post \<and>
     wait_loop 0 pre (wait_begin 0 (example_armed 50)) = (Blocked, s_k) \<and> \<not> active (heap s_k 0)"
    using b i by (intro exI [of _ "[(10, [StopNotifier (Handle 0)])]"] exI [of _ "(60, [])"]
        exI [of _ "[]"] exI) (intro conjI, simp, assumption+)
  then show ?thesis
    using g wait_returns_zero [of example_freed "Handle 0" "[(3, [])]" 0]
      wait_returns_zero [of "example_armed 50" "Handle 0"
         "[(10, [StopNotifier (Handle 0)]), (60, [])]" 0]
    by (simp add: Get_example_armed)
qed

text \<open>
  C5 as stated says that 0 is returned in two cases only.  Here the handle is known and the
  object is alive at the return, yet the value is 0: another thread arms the alarm for the
  deadline 0 while the clock stands at 0.
\<close>

theorem wait_zero_third_case_counterexample:
  "Get example_created (Handle 0) = Some 0 \<and>
   return_value (fst (HAL_WaitForNotifierAlarm (Handle 0)
       [(0, [UpdateNotifierAlarm (Handle 0) 0]), (0, [])] 0 example_created)) = Some 0 \<and>
   active (heap (snd (snd (HAL_WaitForNotifierAlarm (Handle 0)
       [(0, [UpdateNotifierAlarm (Handle 0) 0]), (0, [])] 0 example_created))) 0)"
  by (simp add: example_created_def hal_defs)

text \<open>
  C3, amended.  While the paused flag is set, every loop iteration that goes to sleep
  selects the long fixed sleep of 1000 seconds, whatever armed and deadline are; with the
  flag clear an armed alarm sleeps for the time left to its deadline.  Pause changes the
  flag and nothing else; resume clears the flag, notifies the condition variable of every
  registered object and changes nothing else; an iteration that goes to sleep changes no
  object.  So armed flag and deadline are preserved.  The test for firing does not read the
  flag: an iteration on an alive, armed object whose sampled time has reached the deadline
  fires, with the flag set or clear, and so it does after resume.
\<close>

theorem paused_wait:
  "(notifiersPaused s \<longrightarrow>
      fst (wait_iteration r t s) =
        (if \<not> active (heap s r) then LoopExit
         else if running (heap s r) \<and> waitTime (heap s r) \<le> t then Fire t
         else Sleep Seconds1000)) \<and>
   notifiersPaused (PauseNotifiers s) \<and> heap (PauseNotifiers s) = heap s \<and>
   \<not> notifiersPaused (ResumeNotifiers s) \<and> heap (ResumeNotifiers s) = heap s \<and>
   (active (heap s r) \<and> running (heap s r) \<and> waitTime (heap s r) \<le> t \<longrightarrow>
      fst (wait_iteration r t s) = Fire t \<and>
      fst (wait_iteration r t (ResumeNotifiers s)) = Fire t) \<and>
   PauseNotifiers s = s\<lparr>notifiersPaused := True\<rparr> \<and>
   ResumeNotifiers s =
     s\<lparr>notifiersPaused := False,
       trace := trace s @ map (\<lambda>(h, r). NotifyAll (notifier_cond r)) (entries s)\<rparr> \<and>
   set (entries s) = {(h, r). Get s h = Some r} \<and>
   fst (wait_iteration r t s) =
     (if \<not> active (heap s r) then LoopExit
      else if running (heap s r) \<and> waitTime (heap s r) \<le> t then Fire t
      else Sleep (if \<not> running (heap s r) \<or> notifiersPaused s then Seconds1000
                  else Microseconds (waitTime (heap s r) - t))) \<and>
   heap (snd (wait_iteration r t s)) =
     (if active (heap s r) \<and> running (heap s r) \<and> waitTime (heap s r) \<le> t
      then (heap s)(r := (heap s r)\<lparr>running := False\<rparr>) else heap s) \<and>
   trace (snd (wait_iteration r t s)) =
     trace s @
       [if active (heap s r) \<and> \<not> (running (heap s r) \<and> waitTime (heap s r) \<le> t)
        then WaitFor (notifier_cond r) (notifier_mutex r)
               (if \<not> running (heap s r) \<or> notifiersPaused s then Seconds1000
                else Microseconds (waitTime (heap s r) - t))
        else Unlock (notifier_mutex r)]"
proof -
  have h: "heap (ResumeNotifiers s) = heap s" and p: "\<not> notifiersPaused (ResumeNotifiers s)"
    by (simp_all add: ResumeNotifiers_eq)
  show ?thesis
    using h p ResumeNotifiers_eq [of s] set_entries [of s]
    by (simp add: wait_iteration_cases PauseNotifiers_def)
qed

theorem paused_wait_witness:
  "notifiersPaused (PauseNotifiers (example_armed 100)) \<and>
   fst (wait_iteration 0 20 (PauseNotifiers (example_armed 100))) = Sleep Seconds1000 \<and>
   fst (wait_iteration 0 20 (example_armed 100)) = Sleep (Microseconds 80) \<and>
   waitTime (heap (ResumeNotifiers (PauseNotifiers (example_armed 100))) 0) = 100 \<and>
   running (heap (ResumeNotifiers (PauseNotifiers (example_armed 100))) 0) \<and>
   fst (wait_iteration 0 120 (ResumeNotifiers (PauseNotifiers (example_armed 100)))) = Fire 120 \<and>
   trace (ResumeNotifiers (PauseNotifiers (example_armed 100))) =
     trace (example_armed 100) @ [NotifyAll (notifier_cond 0)] \<and>
   m_structures (ResumeNotifiers (PauseNotifiers (example_armed 100))) =
     m_structures (example_armed 100)"
proof -
  have p: "notifiersPaused (PauseNotifiers (example_armed 100))"
    by (simp add: PauseNotifiers_def)
  have h: "heap (PauseNotifiers (example_armed 100)) 0 =
             make_Notifier\<lparr>waitTime := 100, running := True\<rparr>"
    by (simp add: example_armed_def hal_defs)
  have u: "fst (wait_iteration 0 20 (example_armed 100)) = Sleep (Microseconds 80)"
    by (simp add: example_armed_def hal_defs)
  have e: "entries (PauseNotifiers (example_armed 100)) = [(Handle 0, 0)]"
    by (simp add: example_armed_def hal_defs)
  have tr: "trace (PauseNotifiers (example_armed 100)) = trace (example_armed 100)"
    "m_structures (PauseNotifiers (example_armed 100)) = m_structures (example_armed 100)"
    by (simp_all add: PauseNotifiers_def)
  note a = paused_wait [of "PauseNotifiers (example_armed 100)" 0 20]
  note b = paused_wait [of "PauseNotifiers (example_armed 100)" 0 120]
  have r: "ResumeNotifiers (PauseNotifiers (example_armed 100)) =
      (PauseNotifiers (example_armed 100))\<lparr>notifiersPaused := False,
        trace := trace (example_armed 100) @ [NotifyAll (notifier_cond 0)]\<rparr>"
    using a unfolding e tr by simp
  have 1: "fst (wait_iteration 0 20 (PauseNotifiers (example_armed 100))) = Sleep Seconds1000"
    using a [THEN conjunct1] p h by (simp add: make_Notifier_def)
  have 2: "fst (wait_iteration 0 120 (ResumeNotifiers (PauseNotifiers (example_armed 100)))) = Fire 120"
    using b [THEN conjunct2, THEN conjunct2, THEN conjunct2, THEN conjunct2, THEN conjunct2,
        THEN conjunct1] h
    by (simp add: make_Notifier_def)
  have 3: "waitTime (heap (ResumeNotifiers (PauseNotifiers (example_armed 100))) 0) = 100"
    "running (heap (ResumeNotifiers (PauseNotifiers (example_armed 100))) 0)"
    using h by (simp_all add: r make_Notifier_def)
  have 4: "trace (ResumeNotifiers (PauseNotifiers (example_armed 100))) =
     trace (example_armed 100) @ [NotifyAll (notifier_cond 0)]"
    "m_structures (ResumeNotifiers (PauseNotifiers (example_armed 100))) =
     m_structures (example_armed 100)"
    by (simp_all add: r tr)
  from p 1 u 3 2 4 show ?thesis by (intro conjI)
qed

text \<open>
  C3 as stated says that an armed alarm whose deadline has passed does not fire while the
  flag is set.  A wait that samples the time 10 for the deadline 5 fires although the
  notifiers were paused before the call and never resumed.
\<close>

theorem fires_while_paused_counterexample:
  "notifiersPaused (PauseNotifiers (example_armed 5)) \<and>
   fst (HAL_WaitForNotifierAlarm (Handle 0) [(10, [])] 0 (PauseNotifiers (example_armed 5)))
     = Fired 10 \<and>
   notifiersPaused (snd (snd
     (HAL_WaitForNotifierAlarm (Handle 0) [(10, [])] 0 (PauseNotifiers (example_armed 5)))))"
  by (simp add: example_armed_def hal_defs)

section \<open>What the operations do to an object\<close>

text \<open>Every operation, and every atomic step of a waiter, is followed through its effect
  on the alive flag and the wake count of an object that exists.  A whole call of
  \<^verbatim>\<open>HAL_WaitForNotifierAlarm\<close> is its prologue followed by loop iterations and by
  operations of other threads, so that a statement about all sequences of operations
  covers it.\<close>

lemma deactivate_fields:
  "next_ref (deactivate r s) = next_ref s"
  "m_structures (deactivate r s) = m_structures s"
  "m_limit (deactivate r s) = m_limit s"
  "notifiersPaused (deactivate r s) = notifiersPaused s"
  "heap (deactivate r s) = (heap s)(r := (heap s r)\<lparr>active := False, running := False\<rparr>)"
  by (simp_all add: deactivate_def Let_def)





lemma waits_begun_append:
  "waits_begun r (xs @ ys) s = waits_begun r xs s + waits_begun r ys (run_ops xs s)"
  by (induction xs arbitrary: s) (simp_all add: run_ops_def)



lemma Get_cong_m_structures: "m_structures s = m_structures u \<Longrightarrow> Get s h = Get u h"
  by (cases h) (simp_all add: Get_def)


lemma run_ops_append: "run_ops (xs @ ys) s = run_ops ys (run_ops xs s)"
  by (simp add: run_ops_def)





section \<open>Claims about the life of an object\<close>



section \<open>Claims about introspection\<close>

lemma Min_insert_UINT64_MAX:
  assumes "finite D"
  shows "Min (insert UINT64_MAX D) = (if D = {} then UINT64_MAX else Min D)"
proof (cases "D = {}")
  case True
  then show ?thesis by simp
next
  case False
  have le: "Min D \<le> UINT64_MAX" by (simp add: UINT64_MAX_def)
  have "Min (insert UINT64_MAX D) = min UINT64_MAX (Min D)"
    using assms False by (rule Min_insert)
  also have "\<dots> = Min D" using le by (rule min_absorb2)
  finally show ?thesis using False by (simp only: if_False)
qed

lemma Get_example_created_iff: "Get example_created h = Some r \<longleftrightarrow> h = Handle 0 \<and> r = 0"
  by (cases h) (auto simp add: example_created_def hal_defs)

lemma Get_example_armed_iff: "Get (example_armed d) h = Some r \<longleftrightarrow> h = Handle 0 \<and> r = 0"
  by (cases h) (auto simp add: example_armed_def hal_defs)

lemma heap_example_created:
  "heap example_created 0 = make_Notifier"
  by (simp add: example_created_def hal_defs)

lemma heap_example_armed:
  "heap (example_armed d) 0 = make_Notifier\<lparr>waitTime := d, running := (d \<noteq> UINT64_MAX)\<rparr>"
  by (simp add: example_armed_def hal_defs)

lemma entries_example_armed: "entries (example_armed d) = [(Handle 0, 0)]"
  by (simp add: example_armed_def hal_defs)

text \<open>
  C7.  next-timeout (\<^verbatim>\<open>HALSIM_GetNextNotifierTimeout\<close>) returns the minimum deadline over
  all registered objects that are both alive and armed in the state of the call, and the
  sentinel \<open>UINT64_MAX\<close> when there is no such object.  It changes no object.
\<close>

theorem next_timeout_min:
  "fst (HALSIM_GetNextNotifierTimeout s) =
     (if {r. \<exists>h. Get s h = Some r \<and> active (heap s r) \<and> running (heap s r)} = {}
      then UINT64_MAX
      else Min {waitTime (heap s r) | h r.
                  Get s h = Some r \<and> active (heap s r) \<and> running (heap s r)})
   \<and> heap (snd (HALSIM_GetNextNotifierTimeout s)) = heap s"
proof -
  let ?armed = "filter (\<lambda>(h, r). active (heap s r) \<and> running (heap s r)) (entries s)"
  let ?ds = "map (\<lambda>(h, r). waitTime (heap s r)) ?armed"
  let ?D = "{waitTime (heap s r) | h r. Get s h = Some r \<and> active (heap s r) \<and> running (heap s r)}"
  have D: "set ?ds = ?D"
    using set_entries [of s] by (auto simp: image_iff) 
  have fin: "finite ?D" using D by (metis List.finite_set)
  have empty: "{r. \<exists>h. Get s h = Some r \<and> active (heap s r) \<and> running (heap s r)} = {} \<longleftrightarrow> ?D = {}"
    by auto
  have "fst (HALSIM_GetNextNotifierTimeout s) = fold min ?ds UINT64_MAX"
    using next_timeout_fold [of s s] by (simp add: HALSIM_GetNextNotifierTimeout_def ForEach_def)
  also have "\<dots> = Min (set (UINT64_MAX # ?ds))"
    by (simp only: Min.set_eq_fold)
  also have "\<dots> = Min (insert UINT64_MAX ?D)"
    using D by simp
  also have "\<dots> = (if ?D = {} then UINT64_MAX else Min ?D)"
    using fin by (rule Min_insert_UINT64_MAX)
  finally have "fst (HALSIM_GetNextNotifierTimeout s) = (if ?D = {} then UINT64_MAX else Min ?D)" .
  moreover have "heap (snd (HALSIM_GetNextNotifierTimeout s)) = heap s"
    using next_timeout_fold [of s s] by (simp add: HALSIM_GetNextNotifierTimeout_def ForEach_def)
  ultimately show ?thesis using empty by simp
qed

theorem next_timeout_min_witness:
  "fst (HALSIM_GetNextNotifierTimeout example_created) = UINT64_MAX \<and>
   fst (HALSIM_GetNextNotifierTimeout (example_armed 7)) = 7"
proof -
  have "{r. \<exists>h. Get example_created h = Some r \<and> active (heap example_created r)
               \<and> running (heap example_created r)} = {}"
    by (auto simp: Get_example_created_iff heap_example_created make_Notifier_def)
  moreover have "{r. \<exists>h. Get (example_armed 7) h = Some r \<and> active (heap (example_armed 7) r)
               \<and> running (heap (example_armed 7) r)} = {0}"
    by (auto simp: Get_example_armed_iff heap_example_armed make_Notifier_def UINT64_MAX_def)
  moreover have "{waitTime (heap (example_armed 7) r) | h r.
       Get (example_armed 7) h = Some r \<and> active (heap (example_armed 7) r)
               \<and> running (heap (example_armed 7) r)} = {7}"
    by (auto simp: Get_example_armed_iff heap_example_armed make_Notifier_def UINT64_MAX_def)
  ultimately show ?thesis
    using next_timeout_min [of example_created] next_timeout_min [of "example_armed 7"]
    by simp
qed

text \<open>
  C8, amended.  With fewer than \<open>2^31\<close> live objects, snapshot
  (\<^verbatim>\<open>HALSIM_GetNotifierInfo\<close>) returns the true count of live objects, also when it
  exceeds the capacity, and live-count (\<^verbatim>\<open>HALSIM_GetNumNotifiers\<close>) returns the same
  count.  It writes the entries with index below both the count and the capacity and leaves
  every other index as it was, so no index at or beyond the capacity is touched.  Entry \<open>i\<close>
  carries handle, deadline and armed flag of the \<open>i\<close>-th live object in enumeration order,
  and as name the first \<open>sizeof(name) - 1\<close> characters of the object's name, or of the
  placeholder \<open>Notifier<index>\<close> when the name is empty: a name that does not fit the
  buffer is cut.
\<close>

theorem notifier_info_snapshot:
  assumes "length (filter (\<lambda>(h, r). active (heap s r)) (entries s)) < 2 ^ 31"
  shows "\<exists>arr' num s'.
     HALSIM_GetNotifierInfo name_size arr size' s = (arr', num, s') \<and>
     sint num = int (length (filter (\<lambda>(h, r). active (heap s r)) (entries s))) \<and>
     fst (HALSIM_GetNumNotifiers s) = num \<and>
     heap s' = heap s \<and> length arr' = length arr \<and>
     (\<forall>i < length arr. arr' ! i =
        (if i < length (filter (\<lambda>(h, r). active (heap s r)) (entries s)) \<and> int i < sint size'
         then (\<lambda>(h, r).
                 \<lparr>handle_info = h,
                  name_info = take (name_size - 1)
                                (if name (heap s r) = []
                                 then ''Notifier'' @ decimal (getHandleIndex h)
                                 else name (heap s r)),
                  timeout_info = waitTime (heap s r),
                  running_info = running (heap s r)\<rparr>)
                (filter (\<lambda>(h, r). active (heap s r)) (entries s) ! i)
         else arr ! i))"
proof -
  let ?live = "filter (\<lambda>(h, r). active (heap s r)) (entries s)"
  from assms have "0 + length ?live < 2 ^ 31" by simp
  from info_fold [OF refl this, of name_size size' arr] obtain arr' s' where
    f0: "fold (\<lambda>(h, r). info_visit name_size size' h r) (entries s) (arr, of_nat 0, s) =
           (arr', of_nat (0 + length ?live), s')"
    and h: "heap s' = heap s" and l: "length arr' = length arr"
    and c: "\<forall>i < length arr. arr' ! i =
        (if 0 \<le> i \<and> i < 0 + length ?live \<and> int i < sint size'
         then (\<lambda>(h, r). make_info name_size h (heap s r)) (?live ! (i - 0))
         else arr ! i)"
    by blast
  have f: "HALSIM_GetNotifierInfo name_size arr size' s = (arr', of_nat (length ?live), s')"
    using f0 by (simp add: HALSIM_GetNotifierInfo_def ForEach_def)
  have mk: "(\<lambda>(h, r). make_info name_size h (heap s r)) =
            (\<lambda>(h, r). \<lparr>handle_info = h,
                  name_info = take (name_size - 1)
                                (if name (heap s r) = []
                                 then ''Notifier'' @ decimal (getHandleIndex h)
                                 else name (heap s r)),
                  timeout_info = waitTime (heap s r),
                  running_info = running (heap s r)\<rparr>)"
    by (rule ext) (simp add: make_info_def resolved_name_def split: prod.split)
  have n: "sint (of_nat (length ?live) :: int32_t) = int (length ?live)"
    using assms by (rule sint_of_nat_small)
  have g: "fst (HALSIM_GetNumNotifiers s) = of_nat (length ?live)"
    using num_fold [of s s "entries s" 0] by (simp add: HALSIM_GetNumNotifiers_def ForEach_def)
  from c have "\<forall>i < length arr. arr' ! i =
        (if i < length ?live \<and> int i < sint size'
         then (\<lambda>(h, r). make_info name_size h (heap s r)) (?live ! i)
         else arr ! i)" by simp
  with f h l n g show ?thesis unfolding mk by (intro exI conjI) assumption+
qed

theorem notifier_info_snapshot_witness:
  "sint (fst (snd (HALSIM_GetNotifierInfo 64 [blank_info, blank_info] 1 (example_armed 7)))) = 1 \<and>
   sint (fst (HALSIM_GetNumNotifiers (example_armed 7))) = 1 \<and>
   fst (HALSIM_GetNotifierInfo 64 [blank_info, blank_info] 1 (example_armed 7)) ! 0 =
     \<lparr>handle_info = Handle 0, name_info = ''Notifier0'', timeout_info = 7, running_info = True\<rparr> \<and>
   fst (HALSIM_GetNotifierInfo 64 [blank_info, blank_info] 1 (example_armed 7)) ! 1 = blank_info"
proof -
  let ?live = "filter (\<lambda>(h, r). active (heap (example_armed 7) r)) (entries (example_armed 7))"
  have live: "?live = [(Handle 0, 0)]"
    by (simp add: entries_example_armed heap_example_armed make_Notifier_def)
  have "length ?live < 2 ^ 31"
    by (simp add: live)
  from notifier_info_snapshot [OF this, of 64 "[blank_info, blank_info]" 1]
  obtain arr' num s' where
    eq: "HALSIM_GetNotifierInfo 64 [blank_info, blank_info] 1 (example_armed 7) = (arr', num, s')"
    and n: "sint num = int (length ?live)"
    and g: "fst (HALSIM_GetNumNotifiers (example_armed 7)) = num"
    and c: "\<forall>i < length [blank_info, blank_info]. arr' ! i =
        (if i < length ?live \<and> int i < sint (1 :: int32_t)
         then (\<lambda>(h, r).
                 \<lparr>handle_info = h,
                  name_info = take (64 - 1)
                                (if name (heap (example_armed 7) r) = []
                                 then ''Notifier'' @ decimal (getHandleIndex h)
                                 else name (heap (example_armed 7) r)),
                  timeout_info = waitTime (heap (example_armed 7) r),
                  running_info = running (heap (example_armed 7) r)\<rparr>) (?live ! i)
         else [blank_info, blank_info] ! i)"
    by blast
  from c have "arr' ! 0 =
      \<lparr>handle_info = Handle 0, name_info = ''Notifier0'', timeout_info = 7, running_info = True\<rparr>"
    unfolding live
    by (simp add: heap_example_armed make_Notifier_def UINT64_MAX_def decimal.simps [of 0])
  moreover from c have "arr' ! 1 = blank_info"
    unfolding live by simp
  ultimately show ?thesis using eq n g by (simp add: live)
qed

text \<open>
  C8 as stated says that each entry carries the object's name.  With the 64-byte buffer of
  the HAL header, a notifier named with 64 characters gets an entry whose name differs from
  the object's name: \<^verbatim>\<open>strncpy\<close> and the terminating \<^verbatim>\<open>'\0'\<close> keep 63 characters.
\<close>

theorem long_name_counterexample:
  "name_info (fst (HALSIM_GetNotifierInfo 64 [blank_info] 1 example_long_name) ! 0)
     \<noteq> name (heap example_long_name 0)"
  by (simp add: HALSIM_GetNotifierInfo_def info_visit_def make_info_def resolved_name_def
      example_long_name_def hal_defs)

section \<open>The recorded actions do not influence the objects\<close>

text \<open>The barrier only records synchronisation actions.  Operations applied to two states
  with the same objects lead to states with the same objects, so the objects seen by a pass
  of the barrier are those that the operations of the other threads produce from the state
  at its start.\<close>

lemma same_objects_refl [simp]: "same_objects s s"
  by (simp add: same_objects_def)

lemma same_objects_sym: "same_objects s u \<Longrightarrow> same_objects u s"
  by (simp add: same_objects_def)

lemma same_objects_trans: "same_objects s u \<Longrightarrow> same_objects u v \<Longrightarrow> same_objects s v"
  by (simp add: same_objects_def)

lemma same_objects_emit [simp]:
  "same_objects (emit es s) u \<longleftrightarrow> same_objects s u"
  "same_objects s (emit es u) \<longleftrightarrow> same_objects s u"
  by (simp_all add: same_objects_def)

lemma same_objects_modify:
  "same_objects s u \<Longrightarrow> same_objects (modify r f s) (modify r f u)"
  by (simp add: same_objects_def)

lemma same_objects_Get: "same_objects s u \<Longrightarrow> Get s h = Get u h"
  by (rule Get_cong_m_structures) (simp add: same_objects_def)

lemma same_objects_entries: "same_objects s u \<Longrightarrow> entries s = entries u"
  by (simp add: same_objects_def entries_def)

lemma same_objects_deactivate:
  "same_objects s u \<Longrightarrow> same_objects (deactivate r s) (deactivate r u)"
  by (simp add: same_objects_def deactivate_fields)

lemma same_objects_wait_begin:
  "same_objects s u \<Longrightarrow> same_objects (wait_begin r s) (wait_begin r u)"
  by (simp add: same_objects_def wait_begin_def Let_def)

lemma same_objects_wait_iteration:
  "same_objects s u \<Longrightarrow> same_objects (snd (wait_iteration r t s)) (snd (wait_iteration r t u))"
  by (simp add: same_objects_def wait_iteration_cases)

lemma same_objects_fold_deactivate:
  "same_objects s u \<Longrightarrow>
   same_objects (fold (\<lambda>(h, r). deactivate r) es s) (fold (\<lambda>(h, r). deactivate r) es u)"
proof (induction es arbitrary: s u)
  case Nil
  then show ?case by simp
next
  case (Cons e es)
  obtain h r where e: "e = (h, r)" by (cases e)
  from Cons.IH [OF same_objects_deactivate [OF Cons.prems, of r]] show ?case
    by (simp add: e)
qed

lemma same_objects_fold_notify:
  "same_objects (fold (\<lambda>(h, r). emit [NotifyAll (notifier_cond r)]) es s) s"
  using heap_WakeupNotifiers_fold [of es s] by (simp add: same_objects_def)

lemma same_objects_run_op:
  assumes "same_objects s u"
  shows "same_objects (run_op x s) (run_op x u)"
proof (cases x)
  case (InitializeNotifier e)
  let ?s = "s\<lparr>heap := (heap s)(next_ref s := make_Notifier), next_ref := Suc (next_ref s)\<rparr>"
  let ?u = "u\<lparr>heap := (heap u)(next_ref u := make_Notifier), next_ref := Suc (next_ref u)\<rparr>"
  have "fst (Allocate (next_ref s) ?s) = fst (Allocate (next_ref s) ?u) \<and>
        m_structures (snd (Allocate (next_ref s) ?s)) = m_structures (snd (Allocate (next_ref s) ?u))"
    using assms by (intro Allocate_cong) (simp_all add: same_objects_def)
  then show ?thesis using assms InitializeNotifier
    by (simp add: same_objects_def HAL_InitializeNotifier_eq Allocate_fields)
next
  case (SetNotifierName h nm)
  then show ?thesis using assms same_objects_Get [OF assms, of h]
    by (simp add: HAL_SetNotifierName_def Let_def same_objects_modify split: option.split)
next
  case (StopNotifier h)
  then show ?thesis using assms same_objects_Get [OF assms, of h]
    by (simp add: HAL_StopNotifier_def same_objects_deactivate split: option.split)
next
  case (CleanNotifier h)
  have "same_objects (s\<lparr>m_structures := (m_structures s)[getHandleIndex h := None]\<rparr>)
                     (u\<lparr>m_structures := (m_structures u)[getHandleIndex h := None]\<rparr>)"
    using assms by (simp add: same_objects_def)
  then show ?thesis using CleanNotifier same_objects_Get [OF assms, of h] assms
    by (simp add: HAL_CleanNotifier_def Free_def same_objects_deactivate split: option.split)
next
  case (UpdateNotifierAlarm h t)
  then show ?thesis using assms same_objects_Get [OF assms, of h]
    by (simp add: HAL_UpdateNotifierAlarm_def Let_def same_objects_modify split: option.split)
next
  case (CancelNotifierAlarm h)
  then show ?thesis using assms same_objects_Get [OF assms, of h]
    by (simp add: HAL_CancelNotifierAlarm_def Let_def same_objects_modify split: option.split)
next
  case Pause
  then show ?thesis using assms by (simp add: PauseNotifiers_def same_objects_def)
next
  case Resume
  have "same_objects (s\<lparr>notifiersPaused := False\<rparr>) (u\<lparr>notifiersPaused := False\<rparr>)"
    using assms by (simp add: same_objects_def)
  moreover have "same_objects (ResumeNotifiers s) (s\<lparr>notifiersPaused := False\<rparr>)"
    "same_objects (ResumeNotifiers u) (u\<lparr>notifiersPaused := False\<rparr>)"
    by (simp_all add: ResumeNotifiers_def WakeupNotifiers_def ForEach_def same_objects_fold_notify)
  ultimately show ?thesis using Resume
    by (metis run_op.simps(8) same_objects_sym same_objects_trans)
next
  case Wakeup
  have "same_objects (WakeupNotifiers s) s" "same_objects (WakeupNotifiers u) u"
    by (simp_all add: WakeupNotifiers_def ForEach_def same_objects_fold_notify)
  then show ?thesis using Wakeup assms
    by (metis run_op.simps(9) same_objects_sym same_objects_trans)
next
  case Teardown
  then show ?thesis using same_objects_fold_deactivate [OF assms, of "entries s"]
      same_objects_entries [OF assms]
    by (simp add: NotifierHandleContainer_dtor_def ForEach_def)
next
  case (WaitBegin h)
  then show ?thesis using assms same_objects_Get [OF assms, of h]
    by (simp add: same_objects_wait_begin split: option.split)
next
  case (WaitIteration r t)
  then show ?thesis using assms by (simp add: same_objects_wait_iteration)
qed

lemma same_objects_run_ops:
  "same_objects s u \<Longrightarrow> same_objects (run_ops ops s) (run_ops ops u)"
proof (induction ops arbitrary: s u)
  case Nil
  then show ?case by (simp add: run_ops_def)
next
  case (Cons x ops)
  from Cons.IH [OF same_objects_run_op [OF Cons.prems, of x]] show ?case
    by (simp add: run_ops_def)
qed

lemma recheck_iff:
  "fst (recheck (h, c) s) \<longleftrightarrow> (\<exists>r. Get s h = Some r \<and> active (heap s r) \<and> count (heap s r) = c)"
  by (simp add: recheck_def split: option.split)

lemma same_objects_recheck:
  "same_objects s u \<Longrightarrow> fst (recheck x s) = fst (recheck x u)"
  using same_objects_Get [of s u "fst x"]
  by (cases x) (simp add: recheck_iff, simp add: same_objects_def)

lemma recheck_same_objects: "same_objects (snd (recheck x s)) s"
  by (simp add: recheck_def split: option.split)

section \<open>One pass of the barrier, and its loop\<close>

text \<open>The inner loop keeps in front exactly the entries that \<open>recheck\<close> accepts; the order
  of the entries may change, since a rejected entry is swapped with the last unexamined
  one.\<close>

lemma swap_at_length [simp]: "length (swap_at i j xs) = length xs"
  by (simp add: swap_at_def)

lemma swap_at_nth:
  "i < length xs \<Longrightarrow> j < length xs \<Longrightarrow> k < length xs \<Longrightarrow>
   swap_at i j xs ! k = (if k = j then xs ! i else if k = i then xs ! j else xs ! k)"
  by (simp add: swap_at_def nth_list_update)

lemma swap_range:
  assumes c: "c < e" and e: "e \<le> length ws" and np: "\<not> P (ws ! c)"
  shows "{swap_at c (e - 1) ws ! i | i. c \<le> i \<and> i < e - 1 \<and> P (swap_at c (e - 1) ws ! i)}
       = {ws ! i | i. c \<le> i \<and> i < e \<and> P (ws ! i)}" (is "?A = ?B")
proof (intro set_eqI iffI)
  fix x assume "x \<in> ?A"
  then obtain i where i: "c \<le> i" "i < e - 1" and x: "x = swap_at c (e - 1) ws ! i"
    and p: "P (swap_at c (e - 1) ws ! i)" by blast
  have "i \<noteq> e - 1" "i < length ws" "c < length ws" "e - 1 < length ws"
    using i c e by arith+
  then have n: "swap_at c (e - 1) ws ! i = (if i = c then ws ! (e - 1) else ws ! i)"
    by (simp only: swap_at_nth if_False)
  show "x \<in> ?B"
  proof (cases "i = c")
    case True
    then have "x = ws ! (e - 1) \<and> c \<le> e - 1 \<and> e - 1 < e \<and> P (ws ! (e - 1))"
      using x p n c by simp
    then show ?thesis by blast
  next
    case False
    then have "x = ws ! i \<and> c \<le> i \<and> i < e \<and> P (ws ! i)"
      using x p n i by simp
    then show ?thesis by blast
  qed
next
  fix x assume "x \<in> ?B"
  then obtain i where i: "c \<le> i" "i < e" and x: "x = ws ! i" and p: "P (ws ! i)" by blast
  have ic: "i \<noteq> c" using p np by auto
  show "x \<in> ?A"
  proof (cases "i = e - 1")
    case True
    then have ce: "c < e - 1" using i ic by simp
    have "c \<noteq> e - 1" "c < length ws" "e - 1 < length ws"
      using ce e by arith+
    then have "swap_at c (e - 1) ws ! c = ws ! (e - 1)"
      by (simp only: swap_at_nth if_False if_True refl)
    then have "x = swap_at c (e - 1) ws ! c \<and> c \<le> c \<and> c < e - 1 \<and> P (swap_at c (e - 1) ws ! c)"
      using x p True ce by simp
    then show ?thesis by blast
  next
    case False
    have "i \<noteq> c" "i \<noteq> e - 1" "i < length ws" "c < length ws" "e - 1 < length ws"
      using False i ic c e by arith+
    then have "swap_at c (e - 1) ws ! i = ws ! i"
      by (simp only: swap_at_nth if_False)
    then have "x = swap_at c (e - 1) ws ! i \<and> c \<le> i \<and> i < e - 1 \<and> P (swap_at c (e - 1) ws ! i)"
      using x p i False by simp
    then show ?thesis by blast
  qed
qed

lemma swap_front:
  assumes c: "c < e" and e: "e \<le> length ws"
  shows "{swap_at c (e - 1) ws ! i | i. i < c} = {ws ! i | i. i < c}"
proof -
  have "swap_at c (e - 1) ws ! i = ws ! i" if "i < c" for i
  proof -
    have "i \<noteq> c" "i \<noteq> e - 1" "i < length ws" "c < length ws" "e - 1 < length ws"
      using that c e by arith+
    then show ?thesis by (simp only: swap_at_nth if_False)
  qed
  then show ?thesis by (metis (no_types, lifting))
qed

lemma prune_kept:
  "c \<le> e \<Longrightarrow> e \<le> length ws \<Longrightarrow>
   length (fst (prune ws c e s)) = length ws \<and>
   fst (snd (prune ws c e s)) \<le> e \<and>
   same_objects (snd (snd (prune ws c e s))) s \<and>
   {fst (prune ws c e s) ! i | i. i < fst (snd (prune ws c e s))} =
     {ws ! i | i. i < c} \<union> {ws ! i | i. c \<le> i \<and> i < e \<and> fst (recheck (ws ! i) s)}"
proof (induction ws c e s rule: prune.induct)
  case (1 ws c e s)
  show ?case
  proof (cases "c < e")
    case False
    then have "prune ws c e s = (ws, c, s)" by (simp add: prune.simps)
    with False "1.prems" show ?thesis by auto
  next
    case True
    obtain keep s1 where rc: "recheck (ws ! c) s = (keep, s1)" by (cases "recheck (ws ! c) s")
    have so: "same_objects s1 s" using recheck_same_objects [of "ws ! c" s] rc by simp
    have pend: "fst (recheck x s1) = fst (recheck x s)" for x
      using so by (rule same_objects_recheck)
    show ?thesis
    proof (cases keep)
      case True
      note keep = True
      have p: "prune ws c e s = prune ws (Suc c) e s1"
        using \<open>c < e\<close> rc keep by (subst prune.simps) simp
      have ih: "length (fst (prune ws (Suc c) e s1)) = length ws \<and>
         fst (snd (prune ws (Suc c) e s1)) \<le> e \<and>
         same_objects (snd (snd (prune ws (Suc c) e s1))) s1 \<and>
         {fst (prune ws (Suc c) e s1) ! i | i. i < fst (snd (prune ws (Suc c) e s1))} =
           {ws ! i | i. i < Suc c} \<union>
           {ws ! i | i. Suc c \<le> i \<and> i < e \<and> fst (recheck (ws ! i) s1)}"
        using "1.IH"(1) [OF \<open>c < e\<close> rc [symmetric] refl keep] \<open>c < e\<close> "1.prems" by simp
      have kc: "fst (recheck (ws ! c) s)" using rc keep by simp
      have "{ws ! i | i. i < Suc c} \<union> {ws ! i | i. Suc c \<le> i \<and> i < e \<and> fst (recheck (ws ! i) s)}
          = {ws ! i | i. i < c} \<union> {ws ! i | i. c \<le> i \<and> i < e \<and> fst (recheck (ws ! i) s)}"
        (is "?L = ?R")
      proof (intro set_eqI iffI)
        fix x assume "x \<in> ?L"
        then consider i where "x = ws ! i" "i < Suc c"
          | i where "x = ws ! i" "Suc c \<le> i" "i < e" "fst (recheck (ws ! i) s)" by blast
        then show "x \<in> ?R"
        proof cases
          case 1
          show ?thesis
          proof (cases "i = c")
            case True
            then have "x = ws ! c \<and> c \<le> c \<and> c < e \<and> fst (recheck (ws ! c) s)"
              using 1 kc \<open>c < e\<close> by simp
            then show ?thesis by blast
          next
            case False
            then have "x = ws ! i \<and> i < c" using 1 by simp
            then show ?thesis by blast
          qed
        next
          case 2
          then have "x = ws ! i \<and> c \<le> i \<and> i < e \<and> fst (recheck (ws ! i) s)" by simp
          then show ?thesis by blast
        qed
      next
        fix x assume "x \<in> ?R"
        then consider i where "x = ws ! i" "i < c"
          | i where "x = ws ! i" "c \<le> i" "i < e" "fst (recheck (ws ! i) s)" by blast
        then show "x \<in> ?L"
        proof cases
          case 1
          then have "x = ws ! i \<and> i < Suc c" by simp
          then show ?thesis by blast
        next
          case 2
          show ?thesis
          proof (cases "i = c")
            case True
            then have "x = ws ! i \<and> i < Suc c" using 2 by simp
            then show ?thesis by blast
          next
            case False
            then have "x = ws ! i \<and> Suc c \<le> i \<and> i < e \<and> fst (recheck (ws ! i) s)"
              using 2 by simp
            then show ?thesis by blast
          qed
        qed
      qed
      then have st: "{fst (prune ws (Suc c) e s1) ! i | i. i < fst (snd (prune ws (Suc c) e s1))} =
          {ws ! i | i. i < c} \<union> {ws ! i | i. c \<le> i \<and> i < e \<and> fst (recheck (ws ! i) s)}"
        using ih [THEN conjunct2, THEN conjunct2, THEN conjunct2] unfolding pend by (rule trans [rotated])
      have o: "same_objects (snd (snd (prune ws (Suc c) e s1))) s"
        using ih [THEN conjunct2, THEN conjunct2, THEN conjunct1] so by (rule same_objects_trans)
      from ih [THEN conjunct1] ih [THEN conjunct2, THEN conjunct1] o st
      show ?thesis unfolding p by (intro conjI)
    next
      case False
      note drop = False
      let ?ws = "swap_at c (e - 1) ws"
      have p: "prune ws c e s = prune ?ws c (e - 1) s1"
        using \<open>c < e\<close> rc drop by (subst prune.simps) simp
      have ih: "length (fst (prune ?ws c (e - 1) s1)) = length ?ws \<and>
         fst (snd (prune ?ws c (e - 1) s1)) \<le> e - 1 \<and>
         same_objects (snd (snd (prune ?ws c (e - 1) s1))) s1 \<and>
         {fst (prune ?ws c (e - 1) s1) ! i | i. i < fst (snd (prune ?ws c (e - 1) s1))} =
           {?ws ! i | i. i < c} \<union>
           {?ws ! i | i. c \<le> i \<and> i < e - 1 \<and> fst (recheck (?ws ! i) s1)}"
        using "1.IH"(2) [OF \<open>c < e\<close> rc [symmetric] refl drop] \<open>c < e\<close> "1.prems" by simp
      have nk: "\<not> fst (recheck (ws ! c) s)" using rc drop by simp
      have r: "{?ws ! i | i. c \<le> i \<and> i < e - 1 \<and> fst (recheck (?ws ! i) s)}
             = {ws ! i | i. c \<le> i \<and> i < e \<and> fst (recheck (ws ! i) s)}"
        using \<open>c < e\<close> "1.prems"(2) nk by (rule swap_range)
      have f: "{?ws ! i | i. i < c} = {ws ! i | i. i < c}"
        using \<open>c < e\<close> "1.prems"(2) by (rule swap_front)
      have st: "{fst (prune ?ws c (e - 1) s1) ! i | i. i < fst (snd (prune ?ws c (e - 1) s1))} =
          {ws ! i | i. i < c} \<union> {ws ! i | i. c \<le> i \<and> i < e \<and> fst (recheck (ws ! i) s)}"
        using ih [THEN conjunct2, THEN conjunct2, THEN conjunct2] unfolding pend r f .
      have o: "same_objects (snd (snd (prune ?ws c (e - 1) s1))) s"
        using ih [THEN conjunct2, THEN conjunct2, THEN conjunct1] so by (rule same_objects_trans)
      have l: "length (fst (prune ?ws c (e - 1) s1)) = length ws"
        using ih [THEN conjunct1] by simp
      have b: "fst (snd (prune ?ws c (e - 1) s1)) \<le> e"
        using ih [THEN conjunct2, THEN conjunct1] by simp
      from l b o st show ?thesis unfolding p by (intro conjI)
    qed
  qed
qed

lemma set_take_nth: "n \<le> length xs \<Longrightarrow> set (take n xs) = {xs ! i | i. i < n}"
proof (intro set_eqI iffI)
  fix x assume n: "n \<le> length xs" and "x \<in> set (take n xs)"
  then obtain i where "i < length (take n xs)" "take n xs ! i = x"
    by (auto simp: in_set_conv_nth)
  then have "x = xs ! i \<and> i < n" by simp
  then show "x \<in> {xs ! i | i. i < n}" by blast
next
  fix x assume n: "n \<le> length xs" and "x \<in> {xs ! i | i. i < n}"
  then obtain i where i: "i < n" "x = xs ! i" by blast
  then have "i < length (take n xs)" "take n xs ! i = x" using n by simp_all
  then show "x \<in> set (take n xs)" by (metis nth_mem)
qed

lemma prune_pass:
  "set (take (fst (snd (prune ws 0 (length ws) s))) (fst (prune ws 0 (length ws) s)))
     = {x \<in> set ws. fst (recheck x s)} \<and>
   same_objects (snd (snd (prune ws 0 (length ws) s))) s"
proof -
  note k = prune_kept [of 0 "length ws" ws s, simplified]
  have "fst (snd (prune ws 0 (length ws) s)) \<le> length (fst (prune ws 0 (length ws) s))"
    using k by simp
  then have "set (take (fst (snd (prune ws 0 (length ws) s))) (fst (prune ws 0 (length ws) s)))
     = {fst (prune ws 0 (length ws) s) ! i | i. i < fst (snd (prune ws 0 (length ws) s))}"
    by (rule set_take_nth)
  also have "\<dots> = {ws ! i | i. i < length ws \<and> fst (recheck (ws ! i) s)}"
    using k by simp
  also have "\<dots> = {x \<in> set ws. fst (recheck x s)}"
  proof (intro set_eqI iffI)
    fix x assume "x \<in> {ws ! i | i. i < length ws \<and> fst (recheck (ws ! i) s)}"
    then obtain i where "x = ws ! i" "i < length ws" "fst (recheck (ws ! i) s)" by blast
    then show "x \<in> {x \<in> set ws. fst (recheck x s)}" by simp
  next
    fix x assume "x \<in> {x \<in> set ws. fst (recheck x s)}"
    then have "x \<in> set ws" and p: "fst (recheck x s)" by simp_all
    then obtain i where "i < length ws" "ws ! i = x" by (auto simp: in_set_conv_nth)
    with p have "x = ws ! i \<and> i < length ws \<and> fst (recheck (ws ! i) s)" by simp
    then show "x \<in> {ws ! i | i. i < length ws \<and> fst (recheck (ws ! i) s)}" by blast
  qed
  finally show ?thesis using k by simp
qed

lemma prune_none_left:
  "fst (snd (prune ws 0 (length ws) s)) = 0 \<longleftrightarrow> (\<forall>x \<in> set ws. \<not> fst (recheck x s))"
proof -
  let ?n = "fst (snd (prune ws 0 (length ws) s))" and ?ws = "fst (prune ws 0 (length ws) s)"
  have le: "?n \<le> length ?ws" using prune_kept [of 0 "length ws" ws s] by simp
  have "?n = 0 \<longleftrightarrow> take ?n ?ws = []" using le by auto
  also have "\<dots> \<longleftrightarrow> set (take ?n ?ws) = {}" by simp
  also have "\<dots> \<longleftrightarrow> (\<forall>x \<in> set ws. \<not> fst (recheck x s))"
    unfolding prune_pass [THEN conjunct1] by blast
  finally show ?thesis .
qed

lemma barrier_loop_Nil_iff:
  "barrier_loop [] ws s \<noteq> None \<longleftrightarrow> (\<forall>x \<in> set ws. \<not> fst (recheck x s))"
  using prune_none_left [of ws s]
  by (simp add: split_beta Let_def)

lemma barrier_loop_returns:
  "same_objects s u \<Longrightarrow> barrier_loop sched ws s \<noteq> None \<Longrightarrow> x \<in> set ws \<Longrightarrow>
   \<exists>k \<le> length sched. \<not> fst (recheck x (run_ops (concat (take k sched)) u))"
proof (induction sched arbitrary: ws s u)
  case Nil
  from Nil.prems(2) have "\<forall>x \<in> set ws. \<not> fst (recheck x s)"
    by (simp only: barrier_loop_Nil_iff)
  with Nil.prems(3) have "\<not> fst (recheck x s)" by blast
  then have "\<not> fst (recheck x (run_ops (concat (take 0 [])) u))"
    using same_objects_recheck [OF Nil.prems(1), of x] by (simp add: run_ops_def)
  then show ?case by blast
next
  case (Cons others sched)
  let ?n = "fst (snd (prune ws 0 (length ws) s))" and ?ws = "fst (prune ws 0 (length ws) s)"
  let ?sp = "snd (snd (prune ws 0 (length ws) s))"
  show ?case
  proof (cases "fst (recheck x s)")
    case False
    then have "\<not> fst (recheck x (run_ops (concat (take 0 (others # sched))) u))"
      using same_objects_recheck [OF Cons.prems(1), of x] by (simp add: run_ops_def)
    then show ?thesis by blast
  next
    case True
    then have xin: "x \<in> set (take ?n ?ws)"
      using Cons.prems(3) unfolding prune_pass [THEN conjunct1] by simp
    have n0: "?n \<noteq> 0"
    proof
      assume "?n = 0"
      with xin show False by simp
    qed
    let ?s1 = "run_ops others (emit [WaitFor notifiersWaiterCond notifiersWaiterMutex Seconds1] ?sp)"
    have b: "barrier_loop sched (take ?n ?ws) ?s1 \<noteq> None"
      using Cons.prems(2) n0 by (simp add: split_beta Let_def)
    have "same_objects (emit [WaitFor notifiersWaiterCond notifiersWaiterMutex Seconds1] ?sp) u"
      using prune_pass [THEN conjunct2, of ws s] Cons.prems(1)
      by (simp add: same_objects_trans)
    then have so: "same_objects ?s1 (run_ops others u)" by (rule same_objects_run_ops)
    from Cons.IH [OF so b xin] obtain k where k: "k \<le> length sched"
      "\<not> fst (recheck x (run_ops (concat (take k sched)) (run_ops others u)))" by blast
    then have "Suc k \<le> length (others # sched) \<and>
      \<not> fst (recheck x (run_ops (concat (take (Suc k) (others # sched))) u))"
      by (simp add: run_ops_append)
    then show ?thesis by blast
  qed
qed

lemma snapshot_fold:
  "same_objects s' s \<Longrightarrow>
   fst (fold (\<lambda>(h, r). snapshot_visit curTime h r) es (ws, s')) =
     ws @ map (\<lambda>(h, r). (h, count (heap s r)))
            (filter (\<lambda>(h, r). running (heap s r) \<and>
                       (count (heap s r) = 0 \<or> waitTime (heap s r) \<le> curTime)) es) \<and>
   same_objects (snd (fold (\<lambda>(h, r). snapshot_visit curTime h r) es (ws, s'))) s"
proof (induction es arbitrary: ws s')
  case Nil
  then show ?case by simp
next
  case (Cons e es)
  obtain h r where e: "e = (h, r)" by (cases e)
  have hp: "heap s' = heap s" using Cons.prems by (simp add: same_objects_def)
  show ?case
  proof (cases "running (heap s r) \<and> (count (heap s r) = 0 \<or> waitTime (heap s r) \<le> curTime)")
    case True
    let ?s = "emit [NotifyAll (notifier_cond r), Unlock (notifier_mutex r)]
                (emit [Lock (notifier_mutex r)] s')"
    have step: "snapshot_visit curTime h r (ws, s') = (ws @ [(h, count (heap s r))], ?s)"
      using True hp by (simp add: snapshot_visit_def Let_def)
    have "same_objects ?s s" using Cons.prems by simp
    from Cons.IH [OF this, of "ws @ [(h, count (heap s r))]"] True show ?thesis
      by (simp add: e step)
  next
    case False
    let ?s = "emit [Unlock (notifier_mutex r)] (emit [Lock (notifier_mutex r)] s')"
    have step: "snapshot_visit curTime h r (ws, s') = (ws, ?s)"
      using False hp by (simp add: snapshot_visit_def Let_def)
    have "same_objects ?s s" using Cons.prems by simp
    from Cons.IH [OF this, of ws] False show ?thesis
      by (simp add: e step)
  qed
qed

lemma snapshot_eq:
  "fst (snapshot curTime s) =
     map (\<lambda>(h, r). (h, count (heap s r)))
       (filter (\<lambda>(h, r). running (heap s r) \<and>
                  (count (heap s r) = 0 \<or> waitTime (heap s r) \<le> curTime)) (entries s)) \<and>
   same_objects (snd (snapshot curTime s)) s"
  using snapshot_fold [of s s curTime "entries s" "[]"]
  by (simp add: snapshot_def ForEach_def)

lemma snapshot_fold_trace:
  "same_objects s' s \<Longrightarrow>
   trace (snd (fold (\<lambda>(h, r). snapshot_visit curTime h r) es (ws, s'))) =
     trace s' @ concat (map (\<lambda>(h, r).
        if running (heap s r) \<and> (count (heap s r) = 0 \<or> waitTime (heap s r) \<le> curTime)
        then [Lock (notifier_mutex r), NotifyAll (notifier_cond r), Unlock (notifier_mutex r)]
        else [Lock (notifier_mutex r), Unlock (notifier_mutex r)]) es)"
proof (induction es arbitrary: ws s')
  case Nil
  then show ?case by simp
next
  case (Cons e es)
  obtain h r where e: "e = (h, r)" by (cases e)
  have hp: "heap s' = heap s" using Cons.prems by (simp add: same_objects_def)
  show ?case
  proof (cases "running (heap s r) \<and> (count (heap s r) = 0 \<or> waitTime (heap s r) \<le> curTime)")
    case True
    let ?s = "emit [NotifyAll (notifier_cond r), Unlock (notifier_mutex r)]
                (emit [Lock (notifier_mutex r)] s')"
    have step: "snapshot_visit curTime h r (ws, s') = (ws @ [(h, count (heap s r))], ?s)"
      using True hp by (simp add: snapshot_visit_def Let_def)
    have "same_objects ?s s" using Cons.prems by simp
    from Cons.IH [OF this, of "ws @ [(h, count (heap s r))]"] True show ?thesis
      by (simp add: e step)
  next
    case False
    let ?s = "emit [Unlock (notifier_mutex r)] (emit [Lock (notifier_mutex r)] s')"
    have step: "snapshot_visit curTime h r (ws, s') = (ws, ?s)"
      using False hp by (simp add: snapshot_visit_def Let_def)
    have "same_objects ?s s" using Cons.prems by simp
    from Cons.IH [OF this, of ws] False show ?thesis
      by (simp add: e step)
  qed
qed

lemma same_objects_trace_eq:
  "same_objects s' s \<Longrightarrow> s' = s\<lparr>trace := trace s'\<rparr>"
  by (simp add: same_objects_def)

lemma snapshot_state:
  "snd (snapshot curTime s) =
     s\<lparr>trace := trace s @ concat (map (\<lambda>(h, r).
        if running (heap s r) \<and> (count (heap s r) = 0 \<or> waitTime (heap s r) \<le> curTime)
        then [Lock (notifier_mutex r), NotifyAll (notifier_cond r), Unlock (notifier_mutex r)]
        else [Lock (notifier_mutex r), Unlock (notifier_mutex r)]) (entries s))\<rparr>"
proof -
  have "same_objects (snd (snapshot curTime s)) s" using snapshot_eq by blast
  from same_objects_trace_eq [OF this] show ?thesis
    using snapshot_fold_trace [OF same_objects_refl, where s = s and curTime = curTime
        and es = "entries s" and ws = "[]"]
    by (simp add: snapshot_def ForEach_def)
qed

lemma barrier_loop_returns_if:
  "same_objects s u \<Longrightarrow>
   \<forall>x \<in> set ws. \<exists>k \<le> length sched. \<not> fst (recheck x (run_ops (concat (take k sched)) u)) \<Longrightarrow>
   barrier_loop sched ws s \<noteq> None"
proof (induction sched arbitrary: ws s u)
  case Nil
  have "\<forall>x \<in> set ws. \<not> fst (recheck x s)"
  proof
    fix x assume "x \<in> set ws"
    with Nil.prems(2) have "\<not> fst (recheck x u)" by (auto simp: run_ops_def)
    then show "\<not> fst (recheck x s)"
      using same_objects_recheck [OF Nil.prems(1), of x] by simp
  qed
  then show ?case by (simp only: barrier_loop_Nil_iff)
next
  case (Cons others sched)
  let ?n = "fst (snd (prune ws 0 (length ws) s))" and ?ws = "fst (prune ws 0 (length ws) s)"
  let ?sp = "snd (snd (prune ws 0 (length ws) s))"
  let ?s1 = "run_ops others (emit [WaitFor notifiersWaiterCond notifiersWaiterMutex Seconds1] ?sp)"
  show ?case
  proof (cases "?n = 0")
    case True
    then show ?thesis by (simp add: split_beta Let_def)
  next
    case False
    have "same_objects (emit [WaitFor notifiersWaiterCond notifiersWaiterMutex Seconds1] ?sp) u"
      using prune_pass [THEN conjunct2, of ws s] Cons.prems(1)
      by (simp add: same_objects_trans)
    then have so: "same_objects ?s1 (run_ops others u)" by (rule same_objects_run_ops)
    have rest: "\<forall>x \<in> set (take ?n ?ws). \<exists>k \<le> length sched.
        \<not> fst (recheck x (run_ops (concat (take k sched)) (run_ops others u)))"
    proof
      fix x assume "x \<in> set (take ?n ?ws)"
      then have xin: "x \<in> set ws" and p: "fst (recheck x s)"
        unfolding prune_pass [THEN conjunct1] by simp_all
      from Cons.prems(2) xin obtain k where k: "k \<le> length (others # sched)"
        "\<not> fst (recheck x (run_ops (concat (take k (others # sched))) u))" by blast
      have "k \<noteq> 0"
      proof
        assume "k = 0"
        with k(2) have "\<not> fst (recheck x u)" by (simp add: run_ops_def)
        with p same_objects_recheck [OF Cons.prems(1), of x] show False by simp
      qed
      then obtain j where j: "k = Suc j" by (cases k) auto
      with k have "j \<le> length sched \<and>
        \<not> fst (recheck x (run_ops (concat (take j sched)) (run_ops others u)))"
        by (simp add: run_ops_append)
      then show "\<exists>k \<le> length sched.
        \<not> fst (recheck x (run_ops (concat (take k sched)) (run_ops others u)))" by blast
    qed
    from Cons.IH [OF so rest] False show ?thesis
      by (simp add: split_beta Let_def)
  qed
qed

lemma barrier_loop_iff:
  "same_objects s u \<Longrightarrow>
   barrier_loop sched ws s \<noteq> None \<longleftrightarrow>
     (\<forall>x \<in> set ws. \<exists>k \<le> length sched. \<not> fst (recheck x (run_ops (concat (take k sched)) u)))"
  using barrier_loop_returns [of s u sched ws] barrier_loop_returns_if [of s u ws sched]
  by blast

lemma barrier_loop_state:
  "same_objects s u \<Longrightarrow> barrier_loop sched ws s = Some s' \<Longrightarrow>
   \<exists>k \<le> length sched. same_objects s' (run_ops (concat (take k sched)) u)"
proof (induction sched arbitrary: ws s u)
  case Nil
  let ?sp = "snd (snd (prune ws 0 (length ws) s))"
  from Nil.prems(2) have "s' = emit [Unlock notifiersWaiterMutex] ?sp"
    by (simp add: split_beta Let_def split: if_splits)
  then have "same_objects s' u"
    using prune_pass [THEN conjunct2, of ws s] Nil.prems(1) by (simp add: same_objects_trans)
  then have "0 \<le> length ([] :: op list list) \<and> same_objects s' (run_ops (concat (take 0 [])) u)"
    by (simp add: run_ops_def)
  then show ?case by blast
next
  case (Cons others sched)
  let ?n = "fst (snd (prune ws 0 (length ws) s))" and ?ws = "fst (prune ws 0 (length ws) s)"
  let ?sp = "snd (snd (prune ws 0 (length ws) s))"
  let ?s1 = "run_ops others (emit [WaitFor notifiersWaiterCond notifiersWaiterMutex Seconds1] ?sp)"
  show ?case
  proof (cases "?n = 0")
    case True
    with Cons.prems(2) have "s' = emit [Unlock notifiersWaiterMutex] ?sp"
      by (simp add: split_beta Let_def)
    then have "same_objects s' u"
      using prune_pass [THEN conjunct2, of ws s] Cons.prems(1) by (simp add: same_objects_trans)
    then have "0 \<le> length (others # sched) \<and>
       same_objects s' (run_ops (concat (take 0 (others # sched))) u)"
      by (simp add: run_ops_def)
    then show ?thesis by blast
  next
    case False
    have "same_objects (emit [WaitFor notifiersWaiterCond notifiersWaiterMutex Seconds1] ?sp) u"
      using prune_pass [THEN conjunct2, of ws s] Cons.prems(1)
      by (simp add: same_objects_trans)
    then have so: "same_objects ?s1 (run_ops others u)" by (rule same_objects_run_ops)
    have b: "barrier_loop sched (take ?n ?ws) ?s1 = Some s'"
      using Cons.prems(2) False by (simp add: split_beta Let_def)
    from Cons.IH [OF so b] obtain k where "k \<le> length sched"
      "same_objects s' (run_ops (concat (take k sched)) (run_ops others u))" by blast
    then have "Suc k \<le> length (others # sched) \<and>
       same_objects s' (run_ops (concat (take (Suc k) (others # sched))) u)"
      by (simp add: run_ops_append)
    then show ?thesis by blast
  qed
qed

section \<open>Claims about the simulation barrier\<close>

text \<open>
  C2.  The sync-wakeups barrier (\<^verbatim>\<open>WakeupWaitNotifiers\<close>) builds its pending vector from
  exactly the registered objects with armed and (wake count 0 or current time at or after the
  deadline) in the state at its start, each with its wake count, notifying the condition
  variable of each of them under its lock, and runs its loop on this vector.  A pass keeps exactly the entries whose object is still registered, alive and at
  the wake count of the snapshot, so an entry is dropped only when the object is gone,
  inactive or at another wake count.  The barrier returns at a pass that leaves no entry.
  Hence it returns exactly when every alarm due at its start was, at some pass, no longer
  registered, no longer alive, or at a wake count other than the one at the start; the
  passes see the objects as the operations of the other threads, applied round by round to
  the state at the start, leave them, and the barrier itself changes no object.
\<close>

theorem sync_wakeups_barrier:
  "fst (snapshot curTime s) =
     map (\<lambda>(h, r). (h, count (heap s r)))
       (filter (\<lambda>(h, r). running (heap s r) \<and>
                  (count (heap s r) = 0 \<or> waitTime (heap s r) \<le> curTime)) (entries s)) \<and>
   (fst (recheck (h, c) s) \<longleftrightarrow>
      (\<exists>r. Get s h = Some r \<and> active (heap s r) \<and> count (heap s r) = c)) \<and>
   set (take (fst (snd (prune ws 0 (length ws) s))) (fst (prune ws 0 (length ws) s)))
     = {x \<in> set ws. fst (recheck x s)} \<and>
   (barrier_loop [] ws s \<noteq> None \<longleftrightarrow> (\<forall>x \<in> set ws. \<not> fst (recheck x s))) \<and>
   (WakeupWaitNotifiers curTime sched s \<noteq> None \<longleftrightarrow>
      (\<forall>h r. Get s h = Some r \<and> running (heap s r) \<and>
             (count (heap s r) = 0 \<or> waitTime (heap s r) \<le> curTime) \<longrightarrow>
         (\<exists>k \<le> length sched. \<forall>r'.
             Get (run_ops (concat (take k sched)) s) h = Some r' \<longrightarrow>
               \<not> active (heap (run_ops (concat (take k sched)) s) r') \<or>
               count (heap (run_ops (concat (take k sched)) s) r') \<noteq> count (heap s r)))) \<and>
   WakeupWaitNotifiers curTime sched s =
     barrier_loop sched
       (map (\<lambda>(h, r). (h, count (heap s r)))
          (filter (\<lambda>(h, r). running (heap s r) \<and>
                     (count (heap s r) = 0 \<or> waitTime (heap s r) \<le> curTime)) (entries s)))
       (snd (snapshot curTime (emit [Lock notifiersWaiterMutex] s))) \<and>
   (barrier_loop sched ws s \<noteq> None \<longleftrightarrow>
      (\<forall>x \<in> set ws. \<exists>k \<le> length sched.
          \<not> fst (recheck x (run_ops (concat (take k sched)) s)))) \<and>
   (\<forall>s'. WakeupWaitNotifiers curTime sched s = Some s' \<longrightarrow>
      (\<exists>k \<le> length sched. same_objects s' (run_ops (concat (take k sched)) s))) \<and>
   snd (snapshot curTime s) =
     s\<lparr>trace := trace s @ concat (map (\<lambda>(h, r).
        if running (heap s r) \<and> (count (heap s r) = 0 \<or> waitTime (heap s r) \<le> curTime)
        then [Lock (notifier_mutex r), NotifyAll (notifier_cond r), Unlock (notifier_mutex r)]
        else [Lock (notifier_mutex r), Unlock (notifier_mutex r)]) (entries s))\<rparr>"
proof -
  let ?due = "\<lambda>(h, r). running (heap s r) \<and>
                  (count (heap s r) = 0 \<or> waitTime (heap s r) \<le> curTime)"
  let ?s0 = "emit [Lock notifiersWaiterMutex] s"
  let ?ws = "map (\<lambda>(h, r). (h, count (heap s r))) (filter ?due (entries s))"
  let ?R = "\<forall>h r. Get s h = Some r \<and> running (heap s r) \<and>
             (count (heap s r) = 0 \<or> waitTime (heap s r) \<le> curTime) \<longrightarrow>
         (\<exists>k \<le> length sched. \<forall>r'.
             Get (run_ops (concat (take k sched)) s) h = Some r' \<longrightarrow>
               \<not> active (heap (run_ops (concat (take k sched)) s) r') \<or>
               count (heap (run_ops (concat (take k sched)) s) r') \<noteq> count (heap s r))"
  have snap0: "fst (snapshot curTime ?s0) = ?ws"
    and so0: "same_objects (snd (snapshot curTime ?s0)) s"
    using snapshot_eq [of curTime ?s0] by (simp_all add: entries_def)
  have eq: "WakeupWaitNotifiers curTime sched s =
              barrier_loop sched ?ws (snd (snapshot curTime ?s0))"
    unfolding snap0 [symmetric] by (simp add: WakeupWaitNotifiers_def Let_def split_beta)
  have mem: "x \<in> set ?ws \<longleftrightarrow>
      (\<exists>h r. x = (h, count (heap s r)) \<and> Get s h = Some r \<and> running (heap s r) \<and>
             (count (heap s r) = 0 \<or> waitTime (heap s r) \<le> curTime))" for x
    using set_entries [of s] by (auto simp: image_iff)
  have "WakeupWaitNotifiers curTime sched s \<noteq> None \<longleftrightarrow>
      (\<forall>x \<in> set ?ws. \<exists>k \<le> length sched.
          \<not> fst (recheck x (run_ops (concat (take k sched)) s)))"
    unfolding eq using so0 by (rule barrier_loop_iff)
  also have "\<dots> \<longleftrightarrow> ?R"
  proof
    assume a: "\<forall>x \<in> set ?ws. \<exists>k \<le> length sched.
          \<not> fst (recheck x (run_ops (concat (take k sched)) s))"
    show ?R
    proof (intro allI impI)
      fix h r
      assume "Get s h = Some r \<and> running (heap s r) \<and>
             (count (heap s r) = 0 \<or> waitTime (heap s r) \<le> curTime)"
      then have "(h, count (heap s r)) \<in> set ?ws" unfolding mem by blast
      with a obtain k where "k \<le> length sched"
        "\<not> fst (recheck (h, count (heap s r)) (run_ops (concat (take k sched)) s))" by blast
      then show "\<exists>k \<le> length sched. \<forall>r'.
             Get (run_ops (concat (take k sched)) s) h = Some r' \<longrightarrow>
               \<not> active (heap (run_ops (concat (take k sched)) s) r') \<or>
               count (heap (run_ops (concat (take k sched)) s) r') \<noteq> count (heap s r)"
        unfolding recheck_iff by blast
    qed
  next
    assume R: ?R
    show "\<forall>x \<in> set ?ws. \<exists>k \<le> length sched.
          \<not> fst (recheck x (run_ops (concat (take k sched)) s))"
    proof
      fix x assume "x \<in> set ?ws"
      then obtain h r where x: "x = (h, count (heap s r))" and d: "Get s h = Some r \<and> running (heap s r) \<and>
             (count (heap s r) = 0 \<or> waitTime (heap s r) \<le> curTime)"
        unfolding mem by blast
      from R d obtain k where "k \<le> length sched" "\<forall>r'.
             Get (run_ops (concat (take k sched)) s) h = Some r' \<longrightarrow>
               \<not> active (heap (run_ops (concat (take k sched)) s) r') \<or>
               count (heap (run_ops (concat (take k sched)) s) r') \<noteq> count (heap s r)"
        by blast
      then have "k \<le> length sched \<and>
         \<not> fst (recheck x (run_ops (concat (take k sched)) s))"
        unfolding x recheck_iff by blast
      then show "\<exists>k \<le> length sched.
          \<not> fst (recheck x (run_ops (concat (take k sched)) s))" by blast
    qed
  qed
  finally have ret: "WakeupWaitNotifiers curTime sched s \<noteq> None \<longleftrightarrow> ?R" .
  have st: "\<forall>s'. WakeupWaitNotifiers curTime sched s = Some s' \<longrightarrow>
      (\<exists>k \<le> length sched. same_objects s' (run_ops (concat (take k sched)) s))"
    unfolding eq using barrier_loop_state [OF so0] by blast
  from snapshot_eq [THEN conjunct1, of curTime s] recheck_iff [of h c s]
    prune_pass [THEN conjunct1, of ws s] barrier_loop_Nil_iff [of ws s] ret eq
    barrier_loop_iff [OF same_objects_refl, of sched ws s] st snapshot_state [of curTime s]
  show ?thesis by (intro conjI)
qed

theorem sync_wakeups_barrier_witness:
  "fst (snapshot 10 (example_armed 5)) = [(Handle 0, 0)] \<and>
   WakeupWaitNotifiers 10 [] (example_armed 5) = None \<and>
   WakeupWaitNotifiers 10 [[WaitBegin (Handle 0)]] (example_armed 5) \<noteq> None \<and>
   (\<exists>k \<le> 1. \<forall>r'.
       Get (run_ops (concat (take k [[WaitBegin (Handle 0)]])) (example_armed 5)) (Handle 0) = Some r' \<longrightarrow>
         \<not> active (heap (run_ops (concat (take k [[WaitBegin (Handle 0)]])) (example_armed 5)) r') \<or>
         count (heap (run_ops (concat (take k [[WaitBegin (Handle 0)]])) (example_armed 5)) r') \<noteq> 0) \<and>
   fst (snapshot 499 example_waiting) = [] \<and>
   WakeupWaitNotifiers 499 [] example_waiting \<noteq> None \<and>
   WakeupWaitNotifiers 500 [] example_waiting = None"
proof -
  note t = sync_wakeups_barrier [of 10 "example_armed 5" _ _ _ "[[WaitBegin (Handle 0)]]"]
  have s: "fst (snapshot 10 (example_armed 5)) = [(Handle 0, 0)]"
    using t [THEN conjunct1]
    by (simp add: entries_example_armed heap_example_armed make_Notifier_def UINT64_MAX_def)
  have n: "WakeupWaitNotifiers 10 [] (example_armed 5) = None"
    by (simp add: WakeupWaitNotifiers_def snapshot_def snapshot_visit_def recheck_def
        prune.simps swap_at_def example_armed_def hal_defs)
  have r: "WakeupWaitNotifiers 10 [[WaitBegin (Handle 0)]] (example_armed 5) \<noteq> None"
    by (simp add: WakeupWaitNotifiers_def snapshot_def snapshot_visit_def recheck_def
        prune.simps swap_at_def example_armed_def hal_defs)
  have g: "Get (example_armed 5) (Handle 0) = Some 0 \<and> running (heap (example_armed 5) 0) \<and>
     (count (heap (example_armed 5) 0) = 0 \<or> waitTime (heap (example_armed 5) 0) \<le> 10)"
    by (simp add: Get_example_armed heap_example_armed make_Notifier_def UINT64_MAX_def)
  have c: "count (heap (example_armed 5) 0) = 0"
    by (simp add: heap_example_armed make_Notifier_def)
  from t [THEN conjunct2, THEN conjunct2, THEN conjunct2, THEN conjunct2, THEN conjunct1,
      THEN iffD1, OF r, THEN spec, THEN spec, THEN mp, OF g]
  have e: "\<exists>k \<le> 1. \<forall>r'.
       Get (run_ops (concat (take k [[WaitBegin (Handle 0)]])) (example_armed 5)) (Handle 0) = Some r' \<longrightarrow>
         \<not> active (heap (run_ops (concat (take k [[WaitBegin (Handle 0)]])) (example_armed 5)) r') \<or>
         count (heap (run_ops (concat (take k [[WaitBegin (Handle 0)]])) (example_armed 5)) r') \<noteq> 0"
    unfolding c by simp
  have gw: "Get example_waiting h = Some r \<longleftrightarrow> h = Handle 0 \<and> r = 0" for h r
    by (cases h) (auto simp add: example_waiting_def hal_defs)
  have hw: "heap example_waiting 0 = make_Notifier\<lparr>waitTime := 500, running := True, count := 1\<rparr>"
    and ew: "entries example_waiting = [(Handle 0, 0)]"
    by (simp_all add: example_waiting_def hal_defs)
  note u = sync_wakeups_barrier [of 499 example_waiting _ _ _ "[]"]
  have sw: "fst (snapshot 499 example_waiting) = []"
    using u [THEN conjunct1] by (simp add: ew hw make_Notifier_def)
  have "\<forall>h r. Get example_waiting h = Some r \<and> running (heap example_waiting r) \<and>
             (count (heap example_waiting r) = 0 \<or> waitTime (heap example_waiting r) \<le> 499) \<longrightarrow>
         (\<exists>k \<le> length ([] :: op list list). \<forall>r'.
             Get (run_ops (concat (take k [])) example_waiting) h = Some r' \<longrightarrow>
               \<not> active (heap (run_ops (concat (take k [])) example_waiting) r') \<or>
               count (heap (run_ops (concat (take k [])) example_waiting) r')
                 \<noteq> count (heap example_waiting r))"
    by (simp add: gw hw make_Notifier_def)
  from u [THEN conjunct2, THEN conjunct2, THEN conjunct2, THEN conjunct2, THEN conjunct1,
      THEN iffD2, OF this]
  have rw: "WakeupWaitNotifiers 499 [] example_waiting \<noteq> None" .
  note v = sync_wakeups_barrier [of 500 example_waiting _ _ _ "[]"]
  have "\<not> (\<forall>h r. Get example_waiting h = Some r \<and> running (heap example_waiting r) \<and>
             (count (heap example_waiting r) = 0 \<or> waitTime (heap example_waiting r) \<le> 500) \<longrightarrow>
         (\<exists>k \<le> length ([] :: op list list). \<forall>r'.
             Get (run_ops (concat (take k [])) example_waiting) h = Some r' \<longrightarrow>
               \<not> active (heap (run_ops (concat (take k [])) example_waiting) r') \<or>
               count (heap (run_ops (concat (take k [])) example_waiting) r')
                 \<noteq> count (heap example_waiting r)))"
    by (simp add: gw hw make_Notifier_def run_ops_def UINT64_MAX_def)
  note nR = this
  have bw: "WakeupWaitNotifiers 500 [] example_waiting = None"
  proof (rule ccontr)
    assume "WakeupWaitNotifiers 500 [] example_waiting \<noteq> None"
    from nR v [THEN conjunct2, THEN conjunct2, THEN conjunct2, THEN conjunct2, THEN conjunct1,
        THEN iffD1, OF this]
    show False by (rule notE)
  qed
  from s n r e sw rw bw show ?thesis by (intro conjI)
qed

section \<open>Claims about unknown handles and errors\<close>

lemma Allocate_Get_other:
  "h \<noteq> fst (Allocate r s) \<Longrightarrow> Get (snd (Allocate r s)) h = Get s h"
  by (cases h)
    (auto simp add: Allocate_def Get_def nth_append nth_list_update dest: first_free_Some
      split: option.splits if_splits)

lemma HAL_InitializeNotifier_Get_other:
  assumes "h \<noteq> fst (HAL_InitializeNotifier e status s)"
  shows "Get (snd (snd (HAL_InitializeNotifier e status s))) h = Get s h"
proof (cases "None \<notin> set (m_structures s) \<and> m_limit s \<le> length (m_structures s)")
  case True
  then show ?thesis by (simp add: HAL_InitializeNotifier_eq)
next
  case False
  let ?s1 = "s\<lparr>heap := (heap s)(next_ref s := make_Notifier), next_ref := Suc (next_ref s)\<rparr>"
  have e: "HAL_InitializeNotifier e status s =
          (fst (Allocate (next_ref s) ?s1), status, snd (Allocate (next_ref s) ?s1))"
    using False by (simp only: HAL_InitializeNotifier_eq if_False)
  have "h \<noteq> fst (Allocate (next_ref s) ?s1)" using assms unfolding e by simp
  then have "Get (snd (Allocate (next_ref s) ?s1)) h = Get ?s1 h" by (rule Allocate_Get_other)
  then show ?thesis unfolding e by simp
qed

lemma Allocate_was_free:
  "fst (Allocate r s) \<noteq> HAL_kInvalidHandle \<Longrightarrow> Get s (fst (Allocate r s)) = None"
  by (auto simp add: Allocate_def Get_def dest: first_free_Some split: option.splits if_splits)

text \<open>
  C9.  Every operation that takes a handle returns, for an unknown or freed handle, the
  state and the status output exactly as they were (wait-for-alarm returning through its
  first \<^verbatim>\<open>return 0\<close>).  None of these operations writes the status output for any
  handle.  Create reports the allocation failure: when the registry is exhausted, that is
  when it has no free handle slot, create returns the invalid handle, writes the error code
  to the status output and leaves the state as it was; otherwise it returns a valid handle
  that was not registered before, registers the new object under it and does not write the
  status output.  Create changes the registration of no other handle.
\<close>

theorem handle_errors:
  "(Get s h = None \<longrightarrow>
      HAL_SetNotifierName h nm status s = (status, s) \<and>
      HAL_StopNotifier h status s = (status, s) \<and>
      HAL_CleanNotifier h status s = (status, s) \<and>
      HAL_UpdateNotifierAlarm h d status s = (status, s) \<and>
      HAL_CancelNotifierAlarm h status s = (status, s) \<and>
      HAL_WaitForNotifierAlarm h sched status s = (Unknown, status, s)) \<and>
   fst (HAL_SetNotifierName h nm status s) = status \<and>
   fst (HAL_StopNotifier h status s) = status \<and>
   fst (HAL_CleanNotifier h status s) = status \<and>
   fst (HAL_UpdateNotifierAlarm h d status s) = status \<and>
   fst (HAL_CancelNotifierAlarm h status s) = status \<and>
   fst (snd (HAL_WaitForNotifierAlarm h sched status s)) = status \<and>
   (None \<notin> set (m_structures s) \<and> m_limit s \<le> length (m_structures s) \<longrightarrow>
      HAL_InitializeNotifier HAL_HANDLE_ERROR status s = (HAL_kInvalidHandle, HAL_HANDLE_ERROR, s)) \<and>
   (None \<in> set (m_structures s) \<or> length (m_structures s) < m_limit s \<longrightarrow>
      fst (HAL_InitializeNotifier HAL_HANDLE_ERROR status s) \<noteq> HAL_kInvalidHandle \<and>
      fst (snd (HAL_InitializeNotifier HAL_HANDLE_ERROR status s)) = status \<and>
      Get s (fst (HAL_InitializeNotifier HAL_HANDLE_ERROR status s)) = None \<and>
      Get (snd (snd (HAL_InitializeNotifier HAL_HANDLE_ERROR status s)))
          (fst (HAL_InitializeNotifier HAL_HANDLE_ERROR status s)) = Some (next_ref s)) \<and>
   (\<forall>h'. h' \<noteq> fst (HAL_InitializeNotifier HAL_HANDLE_ERROR status s) \<longrightarrow>
      Get (snd (snd (HAL_InitializeNotifier HAL_HANDLE_ERROR status s))) h' = Get s h')"
proof -
  have unknown: "Get s h = None \<longrightarrow>
      HAL_SetNotifierName h nm status s = (status, s) \<and>
      HAL_StopNotifier h status s = (status, s) \<and>
      HAL_CleanNotifier h status s = (status, s) \<and>
      HAL_UpdateNotifierAlarm h d status s = (status, s) \<and>
      HAL_CancelNotifierAlarm h status s = (status, s) \<and>
      HAL_WaitForNotifierAlarm h sched status s = (Unknown, status, s)"
    by (simp add: HAL_SetNotifierName_def HAL_StopNotifier_def HAL_CleanNotifier_def Free_def
        HAL_UpdateNotifierAlarm_def HAL_CancelNotifierAlarm_def HAL_WaitForNotifierAlarm_def)
  have st: "fst (HAL_SetNotifierName h nm status s) = status"
    "fst (HAL_StopNotifier h status s) = status"
    "fst (HAL_CleanNotifier h status s) = status"
    "fst (HAL_UpdateNotifierAlarm h d status s) = status"
    "fst (HAL_CancelNotifierAlarm h status s) = status"
    "fst (snd (HAL_WaitForNotifierAlarm h sched status s)) = status"
    by (simp_all add: HAL_SetNotifierName_def HAL_StopNotifier_def HAL_CleanNotifier_def Free_def
        HAL_UpdateNotifierAlarm_def HAL_CancelNotifierAlarm_def HAL_WaitForNotifierAlarm_def
        Let_def split: option.split prod.split)
  have full: "None \<notin> set (m_structures s) \<and> m_limit s \<le> length (m_structures s) \<longrightarrow>
      HAL_InitializeNotifier HAL_HANDLE_ERROR status s = (HAL_kInvalidHandle, HAL_HANDLE_ERROR, s)"
    by (simp add: HAL_InitializeNotifier_eq)
  have free: "fst (HAL_InitializeNotifier HAL_HANDLE_ERROR status s) \<noteq> HAL_kInvalidHandle \<and>
      fst (snd (HAL_InitializeNotifier HAL_HANDLE_ERROR status s)) = status \<and>
      Get s (fst (HAL_InitializeNotifier HAL_HANDLE_ERROR status s)) = None \<and>
      Get (snd (snd (HAL_InitializeNotifier HAL_HANDLE_ERROR status s)))
          (fst (HAL_InitializeNotifier HAL_HANDLE_ERROR status s)) = Some (next_ref s)"
    if f: "None \<in> set (m_structures s) \<or> length (m_structures s) < m_limit s"
  proof -
    let ?s1 = "s\<lparr>heap := (heap s)(next_ref s := make_Notifier), next_ref := Suc (next_ref s)\<rparr>"
    have ne: "\<not> (None \<notin> set (m_structures s) \<and> m_limit s \<le> length (m_structures s))"
      using f by auto
    then have v: "fst (Allocate (next_ref s) ?s1) \<noteq> HAL_kInvalidHandle"
      using Allocate_invalid_iff [of "next_ref s" ?s1] by simp
    have e: "HAL_InitializeNotifier HAL_HANDLE_ERROR status s =
          (fst (Allocate (next_ref s) ?s1), status, snd (Allocate (next_ref s) ?s1))"
      using ne by (simp only: HAL_InitializeNotifier_eq if_False)
    have "Get ?s1 (fst (Allocate (next_ref s) ?s1)) = None"
      using v by (rule Allocate_was_free)
    then have "Get s (fst (Allocate (next_ref s) ?s1)) = None" by simp
    with v Allocate_Get [OF v] show ?thesis unfolding e by simp
  qed
  have others: "\<forall>h'. h' \<noteq> fst (HAL_InitializeNotifier HAL_HANDLE_ERROR status s) \<longrightarrow>
      Get (snd (snd (HAL_InitializeNotifier HAL_HANDLE_ERROR status s))) h' = Get s h'"
    by (intro allI impI) (rule HAL_InitializeNotifier_Get_other)
  from unknown st full free others show ?thesis by (intro conjI impI) (assumption | blast)+
qed

theorem handle_errors_witness:
  "Get example_freed (Handle 0) = None \<and>
   HAL_UpdateNotifierAlarm (Handle 0) 5 0 example_freed = (0, example_freed) \<and>
   HAL_WaitForNotifierAlarm (Handle 0) [(9, [])] 0 example_freed = (Unknown, 0, example_freed) \<and>
   m_structures example_full = [Some 0] \<and> m_limit example_full = 1 \<and>
   HAL_InitializeNotifier (- 1098) 0 example_full = (HAL_kInvalidHandle, - 1098, example_full) \<and>
   m_structures example_freed = [None] \<and>
   fst (HAL_InitializeNotifier (- 1098) 0 example_freed) = Handle 0 \<and>
   fst (snd (HAL_InitializeNotifier (- 1098) 0 example_freed)) = 0 \<and>
   Get (snd (snd (HAL_InitializeNotifier (- 1098) 0 example_freed))) (Handle 0) = Some 1"
proof -
  have g: "Get example_freed (Handle 0) = None"
    and mf: "m_structures example_freed = [None]" and nf: "next_ref example_freed = 1"
    by (simp_all add: example_freed_def hal_defs)
  have m: "m_structures example_full = [Some 0]" "m_limit example_full = 1"
    by (simp_all add: example_full_def hal_defs)
  have h: "fst (HAL_InitializeNotifier (- 1098) 0 example_freed) = Handle 0"
    by (simp add: example_freed_def hal_defs)
  note a = handle_errors [of example_freed "Handle 0" "[]" 0 5 "[(9, [])]" "- 1098"]
  note b = handle_errors [of example_full "Handle 0" "[]" 0 5 "[(9, [])]" "- 1098"]
  from a g have u: "HAL_UpdateNotifierAlarm (Handle 0) 5 0 example_freed = (0, example_freed)"
    "HAL_WaitForNotifierAlarm (Handle 0) [(9, [])] 0 example_freed = (Unknown, 0, example_freed)"
    by simp_all
  from b m have f: "HAL_InitializeNotifier (- 1098) 0 example_full
                      = (HAL_kInvalidHandle, - 1098, example_full)"
    by simp
  from a mf have c: "fst (snd (HAL_InitializeNotifier (- 1098) 0 example_freed)) = 0"
    "Get (snd (snd (HAL_InitializeNotifier (- 1098) 0 example_freed)))
          (fst (HAL_InitializeNotifier (- 1098) 0 example_freed)) = Some (next_ref example_freed)"
    by simp_all
  from g u m f mf h c show ?thesis unfolding h nf by (intro conjI) simp_all
qed

end
